theory Spec2Isabelle
  imports Complex_Main "HOL-Library.Word"
begin

unbundle bit_operations_syntax

section \<open>The speech turn-taking pipeline of SimliOpenAI.tsx\<close>

text \<open>
  The component keeps its pipeline state in React refs (\<^verbatim>\<open>isFirstRun\<close>,
  \<^verbatim>\<open>audioChunkQueueRef\<close>, \<^verbatim>\<open>isProcessingChunkRef\<close>, \<^verbatim>\<open>isSpeakingRef\<close>) and a few
  pieces of display state. JavaScript runs the handlers on one thread, so every handler
  is modelled as a function from the state to the state, cut at each \<^verbatim>\<open>await\<close>: the
  part of an async function before an \<^verbatim>\<open>await\<close> is one function, the part after it is
  another one that receives the outcome of the awaited call. Calls to the external
  collaborators (the chat backend, the speech synthesizer, the avatar sink, the timer)
  are recorded in the state, in the order in which the code makes them.

  The Numbers of the resampler are binary64 values with their infinities, NaN and the
  two zeros; every arithmetic operation rounds its exact result, and a store into a
  \<^verbatim>\<open>Float32Array\<close> rounds to binary32. PCM samples are \<^typ>\<open>16 word\<close>, read with
  \<^const>\<open>sint\<close>, as the elements of an \<^verbatim>\<open>Int16Array\<close> are.
\<close>

subsection \<open>Values and errors\<close>

type_synonym int16 = "16 word"
type_synonym Int16Array = "int16 list"
type_synonym ArrayBuffer = "8 word list"

datatype js_error =
    Error string
  | RangeError string
  | TypeError string

text \<open>JSON values, as \<^verbatim>\<open>axios\<close> parses them from the body of the backend's answer.\<close>

datatype json =
    JNull
  | JBool bool
  | JNumber real
  | JString string
  | JArray "json list"
  | JObject "(string \<times> json) list"

text \<open>\<^verbatim>\<open>TranscriptionResult\<close>, as the transcription service hands it to \<^verbatim>\<open>onTranscription\<close>.\<close>

record TranscriptionResult =
  transcript :: string
  isFinal :: bool
  confidence :: real
  timestamp :: "nat option"

text \<open>Who asked for a reply to be spoken: the greeting timer or a user transcript.\<close>

datatype speaker = Greeting | Reply

record state =
  isLoading :: bool
  isAvatarVisible :: bool
  error :: string
  isRecording :: bool
  userMessage :: string
  isProcessing :: bool
  processingStep :: string
  isFirstRun :: bool
  audioChunkQueue :: "Int16Array list"
  isProcessingChunk :: bool
  isSpeaking :: bool
  backendCalls :: "string list"
  ttsCalls :: "(speaker \<times> json) list"
  sinkChunks :: "Int16Array list"
  greetingTimers :: nat

text \<open>The state of a freshly mounted component: the initial values of the hooks.\<close>

definition initial :: state where
  "initial = \<lparr> isLoading = False, isAvatarVisible = False, error = '''',
     isRecording = False, userMessage = ''...'', isProcessing = False,
     processingStep = '''', isFirstRun = True, audioChunkQueue = [],
     isProcessingChunk = False, isSpeaking = False, backendCalls = [],
     ttsCalls = [], sinkChunks = [], greetingTimers = 0 \<rparr>"

subsection \<open>The transcription handler\<close>

text \<open>
  \<^verbatim>\<open>onTranscription\<close> up to its first \<^verbatim>\<open>await\<close>: the display is updated, and a final
  result with confidence above 0.7 that arrives while the avatar is not speaking is
  posted to the backend (\<^verbatim>\<open>sendMessageToBackend\<close> calls \<^verbatim>\<open>axios.post\<close> before it
  suspends).
\<close>

definition onTranscription :: "state \<Rightarrow> TranscriptionResult \<Rightarrow> state" where
  "onTranscription s result =
     (let s1 = s\<lparr>userMessage := transcript result @ (if isFinal result then '''' else ''...'')\<rparr>
      in if isFinal result \<and> confidence result > 0.7 then
           if isSpeaking s1 then s1
           else s1\<lparr>isProcessing := True,
                   processingStep := ''Processing your message...'',
                   backendCalls := backendCalls s1 @ [transcript result]\<rparr>
         else s1)"

subsection \<open>Counting loops\<close>

text \<open>
  \<^verbatim>\<open>for (let i = lo; i < n; i++) body\<close>, with the variables the body updates as the
  loop state.
\<close>

function for_loop :: "nat \<Rightarrow> nat \<Rightarrow> (nat \<Rightarrow> 'a \<Rightarrow> 'a) \<Rightarrow> 'a \<Rightarrow> 'a" where
  "for_loop i n body s = (if i < n then for_loop (Suc i) n body (body i s) else s)"
  by pat_completeness auto
termination
  by (relation "measure (\<lambda>(i, n, body, s). n - i)") auto

declare for_loop.simps [simp del]

subsection \<open>JavaScript numbers\<close>

text \<open>
  A Number is a finite binary64 value, one of the two infinities, or NaN. The zero
  written \<open>Fin 0\<close> is \<open>+0\<close>; \<open>-0\<close> is a value of its own.
\<close>

datatype number = Fin real | NegZero | PosInf | NegInf | NaN

text \<open>
  Rounding to a binary format with \<open>p\<close> significant bits and exponents from \<open>emin\<close> to
  \<open>emax\<close>, to the nearest representable value, ties to the even significand. Below the
  smallest normal number the spacing stays that of the lowest binade; a result of
  magnitude \<open>2\<^bsup>emax+1\<^esup>\<close> or more is an infinity; a result of 0 keeps the sign.
\<close>

definition roundHalfEven :: "real \<Rightarrow> int" where
  "roundHalfEven y =
     (let n = \<lfloor>y\<rfloor>; r = y - of_int n
      in if r < 1 / 2 then n else if 1 / 2 < r then n + 1 else if even n then n else n + 1)"

definition exponent :: "real \<Rightarrow> int" where
  "exponent x = \<lfloor>log 2 \<bar>x\<bar>\<rfloor>"

definition roundTo :: "nat \<Rightarrow> int \<Rightarrow> int \<Rightarrow> real \<Rightarrow> number" where
  "roundTo p emin emax x =
     (let e = max (exponent x) emin;
          q = 2 powi (e - (int p - 1));
          r = of_int (roundHalfEven (x / q)) * q
      in if x = 0 then Fin 0
         else if 2 powi (emax + 1) \<le> \<bar>r\<bar> then (if 0 < x then PosInf else NegInf)
         else if r = 0 then (if x < 0 then NegZero else Fin 0)
         else Fin r)"

definition binary64 :: "real \<Rightarrow> number" where
  "binary64 = roundTo 53 (- 1022) 1023"

definition binary32 :: "real \<Rightarrow> number" where
  "binary32 = roundTo 24 (- 126) 127"

fun realOf :: "number \<Rightarrow> real" where
  "realOf (Fin x) = x"
| "realOf n = 0"

fun isFinite :: "number \<Rightarrow> bool" where
  "isFinite (Fin x) = True"
| "isFinite NegZero = True"
| "isFinite n = False"

fun isInfinite :: "number \<Rightarrow> bool" where
  "isInfinite PosInf = True"
| "isInfinite NegInf = True"
| "isInfinite n = False"

fun isZero :: "number \<Rightarrow> bool" where
  "isZero (Fin x) = (x = 0)"
| "isZero NegZero = True"
| "isZero n = False"

fun isNegative :: "number \<Rightarrow> bool" where
  "isNegative (Fin x) = (x < 0)"
| "isNegative NegZero = True"
| "isNegative NegInf = True"
| "isNegative n = False"

definition zero :: "bool \<Rightarrow> number" where
  "zero negative = (if negative then NegZero else Fin 0)"

definition infinity :: "bool \<Rightarrow> number" where
  "infinity negative = (if negative then NegInf else PosInf)"

text \<open>The arithmetic operators: the exact result of finite operands, rounded to binary64.\<close>

fun js_neg :: "number \<Rightarrow> number" where
  "js_neg (Fin x) = (if x = 0 then NegZero else Fin (- x))"
| "js_neg NegZero = Fin 0"
| "js_neg PosInf = NegInf"
| "js_neg NegInf = PosInf"
| "js_neg NaN = NaN"

definition js_add :: "number \<Rightarrow> number \<Rightarrow> number" where
  "js_add a b =
     (if a = NaN \<or> b = NaN then NaN
      else if isInfinite a then (if isInfinite b \<and> a \<noteq> b then NaN else a)
      else if isInfinite b then b
      else if realOf a + realOf b = 0
      then (if a = NegZero \<and> b = NegZero then NegZero else Fin 0)
      else binary64 (realOf a + realOf b))"

definition js_sub :: "number \<Rightarrow> number \<Rightarrow> number" where
  "js_sub a b = js_add a (js_neg b)"

definition js_mul :: "number \<Rightarrow> number \<Rightarrow> number" where
  "js_mul a b =
     (if a = NaN \<or> b = NaN then NaN
      else if isInfinite a \<or> isInfinite b
      then (if isZero a \<or> isZero b then NaN else infinity (isNegative a \<noteq> isNegative b))
      else if realOf a * realOf b = 0 then zero (isNegative a \<noteq> isNegative b)
      else binary64 (realOf a * realOf b))"

definition js_div :: "number \<Rightarrow> number \<Rightarrow> number" where
  "js_div a b =
     (if a = NaN \<or> b = NaN then NaN
      else if isInfinite a
      then (if isInfinite b then NaN else infinity (isNegative a \<noteq> isNegative b))
      else if isInfinite b then zero (isNegative a \<noteq> isNegative b)
      else if isZero b
      then (if isZero a then NaN else infinity (isNegative a \<noteq> isNegative b))
      else if isZero a then zero (isNegative a \<noteq> isNegative b)
      else binary64 (realOf a / realOf b))"

text \<open>\<^verbatim>\<open>a < b\<close>: false when either side is NaN; the two zeros are equal.\<close>

definition js_lt :: "number \<Rightarrow> number \<Rightarrow> bool" where
  "js_lt a b =
     (if a = NaN \<or> b = NaN then False
      else if a = PosInf \<or> b = NegInf then False
      else if a = NegInf \<or> b = PosInf then True
      else realOf a < realOf b)"

text \<open>A numeric literal of the source text denotes the nearest binary64 value.\<close>

definition lit :: "real \<Rightarrow> number" where
  "lit x = binary64 x"

text \<open>\<^verbatim>\<open>Math.PI\<close>, the binary64 value nearest to \<open>\<pi>\<close>.\<close>

definition Math_PI :: number where
  "Math_PI = Fin (884279719003555 / 281474976710656)"

text \<open>
  \<^verbatim>\<open>Math.floor\<close> and \<^verbatim>\<open>Math.round\<close> are exact. \<^verbatim>\<open>Math.round\<close> returns the nearest
  integer, and of the two nearest ones the larger when the argument lies halfway
  between them; a result of 0 for a negative argument is \<open>-0\<close>.
\<close>

fun Math_floor :: "number \<Rightarrow> number" where
  "Math_floor (Fin x) = Fin (of_int \<lfloor>x\<rfloor>)"
| "Math_floor n = n"

fun Math_round :: "number \<Rightarrow> number" where
  "Math_round (Fin x) = (if \<lfloor>x + 1 / 2\<rfloor> = 0 \<and> x < 0 then NegZero else Fin (of_int \<lfloor>x + 1 / 2\<rfloor>))"
| "Math_round n = n"

text \<open>
  \<^verbatim>\<open>Math.sin\<close> and \<^verbatim>\<open>Math.cos\<close> are approximations that the language leaves to the
  host; only their values at the zeros, the infinities and NaN are fixed. What the host
  computes for the other finite arguments is a parameter of the model; the Number it
  returns is that value rounded to binary64.
\<close>

record math_lib =
  sin_of :: "real \<Rightarrow> real"
  cos_of :: "real \<Rightarrow> real"

fun Math_sin :: "math_lib \<Rightarrow> number \<Rightarrow> number" where
  "Math_sin h (Fin x) = (if x = 0 then Fin 0 else binary64 (sin_of h x))"
| "Math_sin h NegZero = NegZero"
| "Math_sin h n = NaN"

fun Math_cos :: "math_lib \<Rightarrow> number \<Rightarrow> number" where
  "Math_cos h (Fin x) = (if x = 0 then Fin 1 else binary64 (cos_of h x))"
| "Math_cos h NegZero = Fin 1"
| "Math_cos h n = NaN"

text \<open>
  Storing a Number into a \<^verbatim>\<open>Float32Array\<close> rounds it to binary32. Storing it into an
  \<^verbatim>\<open>Int16Array\<close> (the conversion ToInt16) drops the fraction and keeps the low 16 bits:
  there is no saturation; NaN, the zeros and the infinities are stored as 0.
\<close>

fun fround :: "number \<Rightarrow> number" where
  "fround (Fin x) = binary32 x"
| "fround n = n"

definition truncate :: "real \<Rightarrow> int" where
  "truncate x = (if x < 0 then \<lceil>x\<rceil> else \<lfloor>x\<rfloor>)"

fun toInt16 :: "number \<Rightarrow> int16" where
  "toInt16 (Fin x) = word_of_int (truncate x)"
| "toInt16 n = 0"

text \<open>
  The length argument of \<^verbatim>\<open>new Int16Array(n)\<close> (the conversion ToIndex): NaN counts as
  0, and a negative or too large length throws.
\<close>

fun typedArrayLength :: "number \<Rightarrow> js_error + nat" where
  "typedArrayLength (Fin x) =
     (if truncate x < 0 \<or> 2 ^ 53 - 1 < truncate x
      then Inl (RangeError ''Invalid typed array length'')
      else Inr (nat (truncate x)))"
| "typedArrayLength NegZero = Inr 0"
| "typedArrayLength NaN = Inr 0"
| "typedArrayLength n = Inl (RangeError ''Invalid typed array length'')"

text \<open>
  Reading \<^verbatim>\<open>array[index]\<close> with a Number as index: an element for an integer inside
  the array, \<^verbatim>\<open>undefined\<close> otherwise, which every use here converts to NaN.
\<close>

fun element :: "Int16Array \<Rightarrow> number \<Rightarrow> number" where
  "element xs (Fin x) =
     (if of_int \<lfloor>x\<rfloor> = x \<and> 0 \<le> x \<and> x < real (length xs)
      then Fin (real_of_int (sint (xs ! nat \<lfloor>x\<rfloor>))) else NaN)"
| "element xs NegZero = (if xs = [] then NaN else Fin (real_of_int (sint (xs ! 0))))"
| "element xs n = NaN"

subsection \<open>The low-pass filter\<close>

definition numberOfTaps :: nat where
  "numberOfTaps = 31"

definition middle :: nat where
  "middle = (numberOfTaps - 1) div 2"

text \<open>
  One pass of the loop that generates the windowed sinc: the value that
  \<^verbatim>\<open>coefficients[i]\<close> holds after the pass. Both assignments store into the
  \<^verbatim>\<open>Float32Array\<close>.
\<close>

definition hammingWindow :: "math_lib \<Rightarrow> nat \<Rightarrow> number" where
  "hammingWindow h i =
     js_sub (lit 0.54)
       (js_mul (lit 0.46)
          (Math_cos h
             (js_div (js_mul (js_mul (Fin 2) Math_PI) (Fin (real i)))
                (Fin (real (numberOfTaps - 1))))))"

definition windowedSinc :: "math_lib \<Rightarrow> number \<Rightarrow> nat \<Rightarrow> number" where
  "windowedSinc h fc i =
     (let stored =
            fround
              (if i = middle then js_mul (js_mul (Fin 2) Math_PI) fc
               else (let x = js_mul (js_mul (js_mul (Fin 2) Math_PI) fc)
                               (Fin (real i - real middle))
                     in js_div (Math_sin h x) (Fin (real i - real middle))))
      in fround (js_mul stored (hammingWindow h i)))"

definition sincCoefficients :: "math_lib \<Rightarrow> number \<Rightarrow> number list" where
  "sincCoefficients h fc =
     for_loop 0 numberOfTaps
       (\<lambda>i coefficients. coefficients[i := windowedSinc h fc i])
       (replicate numberOfTaps (Fin 0))"

text \<open>The normalization: the sum by \<^verbatim>\<open>reduce\<close>, then every coefficient divided by it.\<close>

definition normalize :: "number list \<Rightarrow> number list" where
  "normalize coefficients =
     (let sum = foldl (\<lambda>acc val. js_add acc val) (Fin 0) coefficients
      in map (\<lambda>c. fround (js_div c sum)) coefficients)"

definition lowPassCoefficients :: "math_lib \<Rightarrow> number \<Rightarrow> number \<Rightarrow> number list" where
  "lowPassCoefficients h cutoffFreq sampleRate =
     normalize (sincCoefficients h (js_div cutoffFreq sampleRate))"

text \<open>The inner loop of the convolution: taps that fall outside the data add nothing.\<close>

definition filterSum :: "number list \<Rightarrow> Int16Array \<Rightarrow> nat \<Rightarrow> number" where
  "filterSum coefficients data i =
     for_loop 0 numberOfTaps
       (\<lambda>j sum. (let idx = int i - int j + int middle
                 in if idx \<ge> 0 \<and> idx < int (length data)
                    then js_add sum
                           (js_mul (coefficients ! j)
                              (Fin (real_of_int (sint (data ! nat idx)))))
                    else sum))
       (Fin 0)"

definition applyLowPassFilter :: "math_lib \<Rightarrow> Int16Array \<Rightarrow> number \<Rightarrow> number \<Rightarrow> Int16Array" where
  "applyLowPassFilter h data cutoffFreq sampleRate =
     (let coefficients = lowPassCoefficients h cutoffFreq sampleRate
      in for_loop 0 (length data)
           (\<lambda>i result. result[i := toInt16 (Math_round (filterSum coefficients data i))])
           (replicate (length data) 0))"

subsection \<open>The resampler\<close>

text \<open>The interpolation loop of \<^verbatim>\<open>downsampleAudio\<close>.\<close>

definition interpolate :: "Int16Array \<Rightarrow> number \<Rightarrow> nat \<Rightarrow> Int16Array" where
  "interpolate filteredData ratio newLength =
     for_loop 0 newLength
       (\<lambda>i result.
          (let position = js_mul (Fin (real i)) ratio;
               index = Math_floor position;
               fraction = js_sub position index
           in if js_lt (js_add index (Fin 1)) (Fin (real (length filteredData))) then
                (let a = element filteredData index;
                     b = element filteredData (js_add index (Fin 1))
                 in result[i := toInt16 (Math_round (js_add a (js_mul fraction (js_sub b a))))])
              else result[i := toInt16 (element filteredData index)]))
       (replicate newLength 0)"

text \<open>
  \<^verbatim>\<open>downsampleAudio\<close>. The two sample rates are finite Numbers, given by their values.
\<close>

definition downsampleAudio ::
  "math_lib \<Rightarrow> Int16Array \<Rightarrow> real \<Rightarrow> real \<Rightarrow> js_error + Int16Array" where
  "downsampleAudio h audioData inputSampleRate outputSampleRate =
     (if inputSampleRate = outputSampleRate then Inr audioData
      else if inputSampleRate < outputSampleRate
      then Inl (Error ''Upsampling is not supported'')
      else (let filteredData =
                  applyLowPassFilter h audioData
                    (js_mul (Fin outputSampleRate) (lit 0.45)) (Fin inputSampleRate);
                ratio = js_div (Fin inputSampleRate) (Fin outputSampleRate);
                newLength = Math_floor (js_div (Fin (real (length audioData))) ratio)
            in case typedArrayLength newLength of
                 Inl e \<Rightarrow> Inl e
               | Inr n \<Rightarrow> Inr (interpolate filteredData ratio n)))"

subsection \<open>Chunking and the delivery queue\<close>

definition chunkSize :: nat where
  "chunkSize = 4800"

text \<open>\<^verbatim>\<open>TypedArray.prototype.slice(start, end)\<close> for \<open>0 \<le> start \<le> end\<close>.\<close>

definition slice_array :: "'a list \<Rightarrow> nat \<Rightarrow> nat \<Rightarrow> 'a list" where
  "slice_array xs start end = take (end - start) (drop start xs)"

text \<open>
  The loop \<^verbatim>\<open>for (let i = 0; i < downsampledAudio.length; i += chunkSize)\<close> that pushes
  one slice per pass onto the queue. The step is a parameter here; with a step of 0 the
  loop never ends, and the function has no value.
\<close>

partial_function (option)
  chunkLoop :: "Int16Array \<Rightarrow> nat \<Rightarrow> nat \<Rightarrow> Int16Array list \<Rightarrow> Int16Array list option"
where
  "chunkLoop downsampledAudio csize i queue =
     (if i < length downsampledAudio
      then chunkLoop downsampledAudio csize (i + csize)
             (queue @ [slice_array downsampledAudio i (i + csize)])
      else Some queue)"

text \<open>
  One delivery of \<^verbatim>\<open>processNextAudioChunk\<close>: the flag is raised, the head of the queue
  is shifted out and sent to the avatar client, the flag is lowered. The test
  \<^verbatim>\<open>if (audioChunk)\<close> holds for every typed array, also an empty one.
\<close>

definition sendHead :: "state \<Rightarrow> state" where
  "sendHead s =
     (let s1 = s\<lparr>isProcessingChunk := True\<rparr>;
          audioChunk = hd (audioChunkQueue s1);
          s2 = s1\<lparr>audioChunkQueue := tl (audioChunkQueue s1)\<rparr>;
          s3 = s2\<lparr>sinkChunks := sinkChunks s2 @ [audioChunk]\<rparr>
      in s3\<lparr>isProcessingChunk := False\<rparr>)"

function processNextAudioChunk :: "state \<Rightarrow> state" where
  "processNextAudioChunk s =
     (if length (audioChunkQueue s) > 0 \<and> \<not> isProcessingChunk s
      then processNextAudioChunk (sendHead s)
      else s)"
  by pat_completeness auto
termination
  by (relation "measure (\<lambda>s. length (audioChunkQueue s))")
     (auto simp: sendHead_def Let_def)

declare processNextAudioChunk.simps [simp del]

subsection \<open>Speech synthesis and \<^verbatim>\<open>processBackendResponse\<close>\<close>

text \<open>How the \<^verbatim>\<open>fetch\<close> of the synthesized speech ends.\<close>

datatype fetch_outcome =
    FetchRejected string
  | NotOk string
  | BodyRejected string
  | Body ArrayBuffer

text \<open>\<^verbatim>\<open>textToSpeech\<close> after its \<^verbatim>\<open>await fetch\<close>: every failure is thrown again.\<close>

fun textToSpeech :: "fetch_outcome \<Rightarrow> js_error + ArrayBuffer" where
  "textToSpeech (FetchRejected reason) = Inl (Error reason)"
| "textToSpeech (NotOk statusText) = Inl (Error (''TTS API error: '' @ statusText))"
| "textToSpeech (BodyRejected reason) = Inl (Error reason)"
| "textToSpeech (Body audioBuffer) = Inr audioBuffer"

text \<open>
  \<^verbatim>\<open>new Int16Array(audioBuffer)\<close>: a view of the bytes, two per sample, low byte first;
  the constructor throws when the byte length is odd.
\<close>

fun int16_of_bytes :: "ArrayBuffer \<Rightarrow> Int16Array" where
  "int16_of_bytes (lo # hi # rest) = (ucast lo OR push_bit 8 (ucast hi)) # int16_of_bytes rest"
| "int16_of_bytes rest = []"

definition newInt16Array :: "ArrayBuffer \<Rightarrow> js_error + Int16Array" where
  "newInt16Array audioBuffer =
     (if odd (length audioBuffer)
      then Inl (RangeError ''byte length of Int16Array should be a multiple of 2'')
      else Inr (int16_of_bytes audioBuffer))"

text \<open>
  \<^verbatim>\<open>processBackendResponse\<close> up to its \<^verbatim>\<open>await\<close>: the speaking flag is set and the text
  goes to the synthesizer.
\<close>

definition processBackendResponse_begin :: "state \<Rightarrow> speaker \<Rightarrow> json \<Rightarrow> state" where
  "processBackendResponse_begin s who responseText =
     (let s1 = s\<lparr>isSpeaking := True\<rparr>
      in s1\<lparr>ttsCalls := ttsCalls s1 @ [(who, responseText)]\<rparr>)"

text \<open>
  The end of the \<^verbatim>\<open>try\<close> block of \<^verbatim>\<open>processBackendResponse\<close>, once the chunks are on
  the queue: the drain is started unless one is active, and the speaking flag is
  cleared.
\<close>

definition afterEnqueue :: "state \<Rightarrow> Int16Array list \<Rightarrow> state" where
  "afterEnqueue s queue =
     (let s1 = s\<lparr>audioChunkQueue := queue\<rparr>;
          s2 = (if \<not> isProcessingChunk s1 then processNextAudioChunk s1 else s1)
      in s2\<lparr>isSpeaking := False\<rparr>)"

text \<open>
  The rest of \<^verbatim>\<open>processBackendResponse\<close>, from the outcome of the synthesis on. Each
  \<^const>\<open>Inl\<close> is an exception that the \<^verbatim>\<open>catch\<close> block receives. The result is
  \<^const>\<open>None\<close> if the chunk loop does not end.
\<close>

definition processBackendResponse_resume ::
  "math_lib \<Rightarrow> state \<Rightarrow> fetch_outcome \<Rightarrow> state option" where
  "processBackendResponse_resume h s outcome =
     (case textToSpeech outcome of
        Inl e \<Rightarrow> Some (s\<lparr>isSpeaking := False\<rparr>)
      | Inr audioBuffer \<Rightarrow>
     (case newInt16Array audioBuffer of
        Inl e \<Rightarrow> Some (s\<lparr>isSpeaking := False\<rparr>)
      | Inr audioData \<Rightarrow>
     (case downsampleAudio h audioData 24000 16000 of
        Inl e \<Rightarrow> Some (s\<lparr>isSpeaking := False\<rparr>)
      | Inr downsampledAudio \<Rightarrow>
     (case chunkLoop downsampledAudio chunkSize 0 (audioChunkQueue s) of
        None \<Rightarrow> None
      | Some queue \<Rightarrow> Some (afterEnqueue s queue)))))"

subsection \<open>The backend call\<close>

datatype http_outcome =
    Rejected string
  | Fulfilled json

text \<open>What \<^verbatim>\<open>&&\<close> and \<^verbatim>\<open>||\<close> test.\<close>

fun truthy :: "json \<Rightarrow> bool" where
  "truthy JNull = False"
| "truthy (JBool b) = b"
| "truthy (JNumber n) = (n \<noteq> 0)"
| "truthy (JString str) = (str \<noteq> [])"
| "truthy (JArray elements) = True"
| "truthy (JObject properties) = True"

text \<open>
  The property access \<^verbatim>\<open>lastResponse.text\<close>: it throws on \<^verbatim>\<open>null\<close>, gives the property
  of an object (\<^const>\<open>None\<close> stands for \<^verbatim>\<open>undefined\<close>), and \<^verbatim>\<open>undefined\<close> on every other
  value.
\<close>

fun text_of :: "json \<Rightarrow> js_error + json option" where
  "text_of JNull = Inl (TypeError ''Cannot read properties of null (reading 'text')'')"
| "text_of (JObject properties) = Inr (map_of properties ''text'')"
| "text_of v = Inr None"

text \<open>
  \<^verbatim>\<open>sendMessageToBackend\<close> after its \<^verbatim>\<open>await axios.post\<close>. The \<^verbatim>\<open>catch\<close> block throws
  again whatever was thrown inside \<^verbatim>\<open>try\<close>.
\<close>

definition sendMessageToBackend :: "http_outcome \<Rightarrow> js_error + json" where
  "sendMessageToBackend outcome =
     (case outcome of
        Rejected reason \<Rightarrow> Inl (Error reason)
      | Fulfilled data \<Rightarrow>
          (case data of
             JArray elements \<Rightarrow>
               if truthy data \<and> length elements > 0 then
                 (let lastResponse = elements ! (length elements - 1)
                  in case text_of lastResponse of
                       Inl e \<Rightarrow> Inl e
                     | Inr None \<Rightarrow> Inr (JString ''Sorry, I didn't catch that.'')
                     | Inr (Some t) \<Rightarrow>
                         Inr (if truthy t then t else JString ''Sorry, I didn't catch that.''))
               else Inr (JString ''Sorry, I didn't get a response.'')
           | _ \<Rightarrow> Inr (JString ''Sorry, I didn't get a response.'')))"

subsection \<open>The handlers as events\<close>

text \<open>\<^verbatim>\<open>onTranscription\<close> after \<^verbatim>\<open>await sendMessageToBackend\<close>.\<close>

definition onBackendSettled :: "state \<Rightarrow> http_outcome \<Rightarrow> state" where
  "onBackendSettled s outcome =
     (case sendMessageToBackend outcome of
        Inl e \<Rightarrow> s\<lparr>error := ''Failed to process your message. Please try again.'',
                   isProcessing := False, processingStep := ''''\<rparr>
      | Inr responseText \<Rightarrow>
          processBackendResponse_begin
            (s\<lparr>processingStep := ''Generating response voice...''\<rparr>) Reply responseText)"

text \<open>
  The synthesis has settled: \<^verbatim>\<open>processBackendResponse\<close> runs to its end, and after it
  the rest of \<^verbatim>\<open>onTranscription\<close> if that was the caller. (The timings that
  \<^verbatim>\<open>onTranscription\<close> displays are wall-clock readings and are left out.)
\<close>

definition onSpeechSettled ::
  "math_lib \<Rightarrow> state \<Rightarrow> speaker \<Rightarrow> fetch_outcome \<Rightarrow> state option" where
  "onSpeechSettled h s who outcome =
     (case processBackendResponse_resume h s outcome of
        None \<Rightarrow> None
      | Some s1 \<Rightarrow>
          Some (case who of
                  Greeting \<Rightarrow> s1
                | Reply \<Rightarrow> s1\<lparr>isProcessing := False, processingStep := ''''\<rparr>))"

definition onConnectionChange :: "state \<Rightarrow> bool \<Rightarrow> state" where
  "onConnectionChange s isConnected =
     (if isConnected then
        (let s1 = s\<lparr>isRecording := True, isAvatarVisible := True\<rparr>
         in if isFirstRun s1
            then s1\<lparr>isFirstRun := False, greetingTimers := greetingTimers s1 + 1\<rparr>
            else s1)
      else s\<lparr>isRecording := False\<rparr>)"

text \<open>The callback of the greeting's \<^verbatim>\<open>setTimeout\<close>; it runs once for each timer set.\<close>

definition onGreetingTimer :: "state \<Rightarrow> state" where
  "onGreetingTimer s =
     (if greetingTimers s > 0
      then processBackendResponse_begin (s\<lparr>greetingTimers := greetingTimers s - 1\<rparr>)
             Greeting (JString ''Hello! How can I help you today?'')
      else s)"

text \<open>\<^verbatim>\<open>handleStart\<close> before its first \<^verbatim>\<open>await\<close>, and \<^verbatim>\<open>handleStop\<close> with \<^verbatim>\<open>stopRecording\<close>.\<close>

definition handleStart :: "state \<Rightarrow> state" where
  "handleStart s = s\<lparr>isLoading := True, error := ''''\<rparr>"

definition handleStop :: "state \<Rightarrow> state" where
  "handleStop s =
     s\<lparr>isLoading := False, error := '''', isRecording := False, isAvatarVisible := False,
       audioChunkQueue := [], isProcessingChunk := False, isSpeaking := False\<rparr>"

datatype event =
    Start
  | Stop
  | ConnectionChange bool
  | Transcription TranscriptionResult
  | GreetingTimer
  | BackendSettled http_outcome
  | SpeechSettled speaker fetch_outcome

fun step :: "math_lib \<Rightarrow> state \<Rightarrow> event \<Rightarrow> state option" where
  "step h s Start = Some (handleStart s)"
| "step h s Stop = Some (handleStop s)"
| "step h s (ConnectionChange isConnected) = Some (onConnectionChange s isConnected)"
| "step h s (Transcription result) = Some (onTranscription s result)"
| "step h s GreetingTimer = Some (onGreetingTimer s)"
| "step h s (BackendSettled outcome) = Some (onBackendSettled s outcome)"
| "step h s (SpeechSettled who outcome) = onSpeechSettled h s who outcome"

fun run :: "math_lib \<Rightarrow> state \<Rightarrow> event list \<Rightarrow> state option" where
  "run h s [] = Some s"
| "run h s (e # es) = (case step h s e of None \<Rightarrow> None | Some s1 \<Rightarrow> run h s1 es)"

subsection \<open>Observations\<close>

text \<open>The number of greetings that have been handed to the synthesizer.\<close>

definition greetingsSpoken :: "state \<Rightarrow> nat" where
  "greetingsSpoken s = length (filter (\<lambda>call. fst call = Greeting) (ttsCalls s))"

text \<open>No chunk is waiting and no delivery is under way.\<close>

definition idle :: "state \<Rightarrow> bool" where
  "idle s = (audioChunkQueue s = [] \<and> \<not> isProcessingChunk s)"

text \<open>
  A host whose sine and cosine are correctly rounded (the exact values, rounded to
  binary64), for the examples.
\<close>

definition exactMath :: math_lib where
  "exactMath = \<lparr>sin_of = sin, cos_of = cos\<rparr>"

text \<open>The greeting calls among the calls of the synthesizer, and the greeting's own call.\<close>

definition greetingCalls :: "state \<Rightarrow> (speaker \<times> json) list" where
  "greetingCalls s = filter (\<lambda>call. fst call = Greeting) (ttsCalls s)"

definition greeting :: "speaker \<times> json" where
  "greeting = (Greeting, JString ''Hello! How can I help you today?'')"

text \<open>Two sessions of one mounted component, the first with its greeting.\<close>

definition firstSession :: "event list" where
  "firstSession = [Start, ConnectionChange True, GreetingTimer,
     SpeechSettled Greeting (Body []), Stop]"

definition secondSession :: "event list" where
  "secondSession = [Start, ConnectionChange True, GreetingTimer]"

text \<open>A final transcript that arrives before the greeting's timer has fired.\<close>

definition earlyTranscript :: "event list" where
  "earlyTranscript = [Start, ConnectionChange True,
     Transcription \<lparr>transcript = ''hi'', isFinal = True, confidence = 0.9, timestamp = None\<rparr>]"

text \<open>
  Rounding to the nearest integer with ties away from zero, the rule the specification
  names; it is what \<^const>\<open>Math_round\<close> is compared with.
\<close>

definition roundHalfAwayFromZero :: "real \<Rightarrow> int" where
  "roundHalfAwayFromZero x = (if x < 0 then - \<lfloor>- x + 1 / 2\<rfloor> else \<lfloor>x + 1 / 2\<rfloor>)"

section \<open>Properties\<close>

subsection \<open>Counting loops\<close>

lemma for_loop_fold: "for_loop i n body s = fold body [i..<n] s"
proof (induction i n body s rule: for_loop.induct)
  case (1 i n body s)
  show ?case
  proof (cases "i < n")
    case True
    then show ?thesis
      using "1" by (subst for_loop.simps) (simp add: upt_conv_Cons)
  next
    case False
    then show ?thesis
      by (subst for_loop.simps) simp
  qed
qed

lemma fold_fill_length:
  "length (fold (\<lambda>k r. r[k := f k]) ks r) = length r"
  by (induction ks arbitrary: r) simp_all

lemma fold_fill_nth:
  "k < length r \<Longrightarrow>
   fold (\<lambda>k r. r[k := f k]) ks r ! k = (if k \<in> set ks then f k else r ! k)"
proof (induction ks arbitrary: r)
  case Nil
  then show ?case by simp
next
  case (Cons j ks)
  then show ?case
    by (cases "j = k") (auto simp: nth_list_update)
qed

lemma for_loop_fill_length:
  "length (for_loop i n (\<lambda>k r. r[k := f k]) r) = length r"
  by (simp add: for_loop_fold fold_fill_length)

lemma for_loop_fill_nth:
  "k < length r \<Longrightarrow>
   for_loop i n (\<lambda>k r. r[k := f k]) r ! k = (if i \<le> k \<and> k < n then f k else r ! k)"
  by (simp add: for_loop_fold fold_fill_nth)

subsection \<open>Turn taking and the rate check\<close>

text \<open>
  Claim C1. The transcription handler posts the transcript to the backend exactly when
  the result is final, its confidence is above 0.7 and the speaking flag is not set; in
  every other case no backend call is made.
\<close>

theorem transcript_dispatched_iff:
  "backendCalls (onTranscription s result) =
     (if isFinal result \<and> confidence result > 0.7 \<and> \<not> isSpeaking s
      then backendCalls s @ [transcript result] else backendCalls s)"
  by (simp add: onTranscription_def Let_def)

theorem transcript_dispatched_iff_witness:
  "backendCalls (onTranscription initial
      \<lparr>transcript = ''hello'', isFinal = True, confidence = 0.9, timestamp = None\<rparr>) = [''hello'']
   \<and> backendCalls (onTranscription initial
      \<lparr>transcript = ''hello'', isFinal = True, confidence = 0.7, timestamp = None\<rparr>) = []
   \<and> backendCalls (onTranscription initial
      \<lparr>transcript = ''hello'', isFinal = False, confidence = 0.9, timestamp = None\<rparr>) = []
   \<and> backendCalls (onTranscription (initial\<lparr>isSpeaking := True\<rparr>)
      \<lparr>transcript = ''hello'', isFinal = True, confidence = 0.9, timestamp = None\<rparr>) = []"
  using transcript_dispatched_iff [of initial "\<lparr>transcript = ''hello'', isFinal = True, confidence = 0.9, timestamp = None\<rparr>"]
    transcript_dispatched_iff [of initial "\<lparr>transcript = ''hello'', isFinal = True, confidence = 0.7, timestamp = None\<rparr>"]
    transcript_dispatched_iff [of initial "\<lparr>transcript = ''hello'', isFinal = False, confidence = 0.9, timestamp = None\<rparr>"]
    transcript_dispatched_iff [of "initial\<lparr>isSpeaking := True\<rparr>" "\<lparr>transcript = ''hello'', isFinal = True, confidence = 0.9, timestamp = None\<rparr>"]
  by (simp add: initial_def)

text \<open>
  Claim C9. \<^verbatim>\<open>downsampleAudio\<close> throws "Upsampling is not supported" exactly when the
  input rate is below the output rate.
\<close>

theorem upsampling_rejected_iff:
  "(downsampleAudio h audioData inputSampleRate outputSampleRate
      = Inl (Error ''Upsampling is not supported''))
   = (inputSampleRate < outputSampleRate)"
proof -
  have "typedArrayLength n \<noteq> Inl (Error msg)" for n msg
    by (cases n) simp_all
  then show ?thesis
    by (auto simp: downsampleAudio_def Let_def split: sum.splits)
qed

lemma sendHead_simps:
  "audioChunkQueue (sendHead s) = tl (audioChunkQueue s)"
  "sinkChunks (sendHead s) = sinkChunks s @ [hd (audioChunkQueue s)]"
  "isProcessingChunk (sendHead s) = False"
  "isSpeaking (sendHead s) = isSpeaking s"
  "isFirstRun (sendHead s) = isFirstRun s"
  "ttsCalls (sendHead s) = ttsCalls s"
  "greetingTimers (sendHead s) = greetingTimers s"
  "backendCalls (sendHead s) = backendCalls s"
  by (simp_all add: sendHead_def Let_def)

lemma drain_blocked: "isProcessingChunk s \<Longrightarrow> processNextAudioChunk s = s"
  by (subst processNextAudioChunk.simps) simp

lemma drain_all:
  "\<not> isProcessingChunk s \<Longrightarrow>
   sinkChunks (processNextAudioChunk s) = sinkChunks s @ audioChunkQueue s
   \<and> audioChunkQueue (processNextAudioChunk s) = []
   \<and> \<not> isProcessingChunk (processNextAudioChunk s)"
proof (induction s rule: processNextAudioChunk.induct)
  case (1 s)
  show ?case
  proof (cases "audioChunkQueue s")
    case Nil
    then show ?thesis
      using "1.prems" by (subst (1 2 3) processNextAudioChunk.simps) simp
  next
    case (Cons c cs)
    then have "sinkChunks (processNextAudioChunk (sendHead s)) =
                 sinkChunks (sendHead s) @ audioChunkQueue (sendHead s)
               \<and> audioChunkQueue (processNextAudioChunk (sendHead s)) = []
               \<and> \<not> isProcessingChunk (processNextAudioChunk (sendHead s))"
      using "1.IH" "1.prems" by (simp add: sendHead_simps)
    then show ?thesis
      using Cons "1.prems"
      by (subst (1 2 3) processNextAudioChunk.simps) (simp add: sendHead_simps)
  qed
qed

lemma drain_other:
  "isSpeaking (processNextAudioChunk s) = isSpeaking s
   \<and> isFirstRun (processNextAudioChunk s) = isFirstRun s
   \<and> ttsCalls (processNextAudioChunk s) = ttsCalls s
   \<and> greetingTimers (processNextAudioChunk s) = greetingTimers s
   \<and> backendCalls (processNextAudioChunk s) = backendCalls s"
proof (induction s rule: processNextAudioChunk.induct)
  case (1 s)
  show ?case
  proof (cases "length (audioChunkQueue s) > 0 \<and> \<not> isProcessingChunk s")
    case True
    then show ?thesis
      using "1.IH" by (subst (1 2 3 4 5) processNextAudioChunk.simps) (simp add: sendHead_simps)
  next
    case False
    then show ?thesis
      by (subst (1 2 3 4 5) processNextAudioChunk.simps) auto
  qed
qed

subsection \<open>Chunking\<close>

lemma ceil_div_Suc:
  fixes n c :: nat
  assumes "0 < c" "0 < n"
  shows "(n + c - 1) div c = Suc ((n - 1) div c)"
proof -
  have e: "n + c - 1 = n - 1 + c"
    using assms by simp
  have "c \<noteq> 0"
    using assms by simp
  then have "(n - 1 + c) div c = (n - 1) div c + 1"
    by (rule div_add_self2)
  then show ?thesis
    unfolding e by (simp only: Suc_eq_plus1)
qed

lemma ceil_div_step:
  fixes n c :: nat
  assumes "0 < c" "0 < n"
  shows "(n + c - 1) div c = Suc ((n - c + c - 1) div c)"
proof (cases "c \<le> n")
  case True
  then have "n - c + c - 1 = n - 1"
    by simp
  then show ?thesis
    using ceil_div_Suc [OF assms] by simp
next
  case False
  then have "n - c + c - 1 = c - 1" and "(n - 1) div c = 0"
    using assms by simp_all
  moreover have "(c - 1) div c = 0"
    using assms by simp
  ultimately show ?thesis
    using ceil_div_Suc [OF assms] by simp
qed

lemma chunkLoop_closed:
  assumes "0 < c"
  shows "\<exists>chunks. chunkLoop xs c i q = Some (q @ chunks)
           \<and> concat chunks = drop i xs
           \<and> length chunks = (length xs - i + c - 1) div c
           \<and> (\<forall>k<length chunks. chunks ! k = take c (drop (i + k * c) xs))"
proof (induction "length xs - i" arbitrary: i q rule: less_induct)
  case less
  show ?case
  proof (cases "i < length xs")
    case False
    then have "chunkLoop xs c i q = Some (q @ [])"
      by (subst chunkLoop.simps) simp
    moreover have "(length xs - i + c - 1) div c = 0"
      using False assms by simp
    ultimately show ?thesis
      using False by (intro exI [of _ "[]"]) simp
  next
    case True
    let ?h = "slice_array xs i (i + c)"
    have "length xs - (i + c) < length xs - i"
      using True assms by simp
    from less [OF this, of "q @ [?h]"]
    obtain rest where rest:
      "chunkLoop xs c (i + c) (q @ [?h]) = Some ((q @ [?h]) @ rest)"
      "concat rest = drop (i + c) xs"
      "length rest = (length xs - (i + c) + c - 1) div c"
      "\<forall>k<length rest. rest ! k = take c (drop (i + c + k * c) xs)"
      by blast
    have h: "?h = take c (drop i xs)"
      by (simp add: slice_array_def)
    have 1: "chunkLoop xs c i q = Some (q @ (?h # rest))"
      using True rest(1) by (subst chunkLoop.simps) simp
    have 2: "concat (?h # rest) = drop i xs"
    proof -
      have "drop (i + c) xs = drop c (drop i xs)"
        by (simp add: add.commute)
      then have "concat (?h # rest) = take c (drop i xs) @ drop c (drop i xs)"
        using rest(2) h by simp
      then show ?thesis
        by (simp only: append_take_drop_id)
    qed
    have 3: "length (?h # rest) = (length xs - i + c - 1) div c"
    proof -
      have "0 < length xs - i" using True by simp
      from ceil_div_step [OF assms this]
      show ?thesis using rest(3) by simp
    qed
    have 4: "\<forall>k<length (?h # rest). (?h # rest) ! k = take c (drop (i + k * c) xs)"
    proof (intro allI impI)
      fix k assume k: "k < length (?h # rest)"
      show "(?h # rest) ! k = take c (drop (i + k * c) xs)"
      proof (cases k)
        case 0
        then show ?thesis using h by simp
      next
        case (Suc j)
        then have "j < length rest" using k by simp
        then have "rest ! j = take c (drop (i + c + j * c) xs)"
          using rest(4) by blast
        then show ?thesis using Suc by (simp add: add.assoc)
      qed
    qed
    from 1 2 3 4 show ?thesis by blast
  qed
qed

lemma chunkLoop_total: "0 < c \<Longrightarrow> \<exists>queue. chunkLoop xs c i q = Some queue"
  using chunkLoop_closed [of c xs i q] by blast

text \<open>
  Claim C7. For a chunk size of at least one sample the loop ends; the chunks it appends
  to the queue are the consecutive slices of the buffer, in order, and their
  concatenation is the buffer.
\<close>

theorem chunks_concat:
  assumes "1 \<le> csize"
  shows "\<exists>chunks. chunkLoop buffer csize 0 queue = Some (queue @ chunks)
           \<and> concat chunks = buffer
           \<and> length chunks = (length buffer + csize - 1) div csize
           \<and> (\<forall>k<length chunks. chunks ! k = slice_array buffer (k * csize) (k * csize + csize))"
proof -
  have "0 < csize" using assms by simp
  from chunkLoop_closed [OF this, of buffer 0 queue]
  show ?thesis by (simp add: slice_array_def)
qed

theorem chunks_concat_witness:
  "(1::nat) \<le> 2 \<and> chunkLoop [1, 2, 3, 4, 5] 2 0 [[9]] = Some ([[9]] @ [[1, 2], [3, 4], [5]])
   \<and> concat [[1, 2], [3, 4], [5 :: int16]] = [1, 2, 3, 4, 5]"
proof -
  have h: "(1::nat) \<le> 2" by simp
  from chunks_concat [OF h, of "[1, 2, 3, 4, 5]" "[[9]]"]
  obtain chunks where c: "chunkLoop [1, 2, 3, 4, 5] 2 0 [[9]] = Some ([[9]] @ chunks)"
    "concat chunks = [1, 2, 3, 4, 5]" by blast
  have "chunkLoop [1, 2, 3, 4, 5] 2 0 [[9]] = Some ([[9]] @ [[1, 2], [3, 4], [5 :: int16]])"
    by (simp add: chunkLoop.simps slice_array_def)
  then show ?thesis using c by simp
qed

subsection \<open>The speaking flag and the delivery queue\<close>

lemma resume_shape:
  "processBackendResponse_resume h s outcome = Some (s\<lparr>isSpeaking := False\<rparr>)
   \<or> (\<exists>queue. processBackendResponse_resume h s outcome = Some (afterEnqueue s queue))"
proof (cases "textToSpeech outcome")
  case (Inl e)
  then show ?thesis
    by (simp add: processBackendResponse_resume_def)
next
  case buf: (Inr audioBuffer)
  show ?thesis
  proof (cases "newInt16Array audioBuffer")
    case (Inl e)
    then show ?thesis
      using buf by (simp add: processBackendResponse_resume_def)
  next
    case arr: (Inr audioData)
    show ?thesis
    proof (cases "downsampleAudio h audioData 24000 16000")
      case (Inl e)
      then show ?thesis
        using buf arr by (simp add: processBackendResponse_resume_def)
    next
      case (Inr downsampledAudio)
      have "0 < chunkSize"
        by (simp add: chunkSize_def)
      then obtain queue where
        "chunkLoop downsampledAudio chunkSize 0 (audioChunkQueue s) = Some queue"
        using chunkLoop_total by blast
      then have "processBackendResponse_resume h s outcome = Some (afterEnqueue s queue)"
        using buf arr Inr
        by (simp add: processBackendResponse_resume_def)
      then show ?thesis by blast
    qed
  qed
qed

lemma afterEnqueue_simps:
  "isSpeaking (afterEnqueue s queue) = False"
  "isFirstRun (afterEnqueue s queue) = isFirstRun s"
  "ttsCalls (afterEnqueue s queue) = ttsCalls s"
  "greetingTimers (afterEnqueue s queue) = greetingTimers s"
  "backendCalls (afterEnqueue s queue) = backendCalls s"
  by (simp_all add: afterEnqueue_def Let_def drain_other)

lemma afterEnqueue_idle:
  "\<not> isProcessingChunk s \<Longrightarrow>
   audioChunkQueue (afterEnqueue s queue) = []
   \<and> \<not> isProcessingChunk (afterEnqueue s queue)
   \<and> sinkChunks (afterEnqueue s queue) = sinkChunks s @ queue"
  using drain_all [of "s\<lparr>audioChunkQueue := queue\<rparr>"]
  by (simp add: afterEnqueue_def Let_def)

text \<open>
  Claim C3. \<^verbatim>\<open>processBackendResponse\<close> sets the speaking flag on entry, and it always
  returns, on the normal path and on every error path, with the flag cleared.
\<close>

theorem speaking_flag_cleared:
  "isSpeaking (processBackendResponse_begin s who responseText)
   \<and> (\<exists>s'. processBackendResponse_resume h s outcome = Some s' \<and> \<not> isSpeaking s')"
proof -
  have "\<exists>s'. processBackendResponse_resume h s outcome = Some s' \<and> \<not> isSpeaking s'"
    using resume_shape [of h s outcome] by (auto simp: afterEnqueue_simps)
  then show ?thesis
    by (simp add: processBackendResponse_begin_def Let_def)
qed

lemma resume_idle:
  assumes "idle s" and "processBackendResponse_resume h s outcome = Some s'"
  shows "idle s'"
  using resume_shape [of h s outcome] assms afterEnqueue_idle [of s]
  by (auto simp: idle_def)

lemma begin_simps:
  "audioChunkQueue (processBackendResponse_begin s who t) = audioChunkQueue s"
  "isProcessingChunk (processBackendResponse_begin s who t) = isProcessingChunk s"
  "isFirstRun (processBackendResponse_begin s who t) = isFirstRun s"
  "greetingTimers (processBackendResponse_begin s who t) = greetingTimers s"
  "ttsCalls (processBackendResponse_begin s who t) = ttsCalls s @ [(who, t)]"
  by (simp_all add: processBackendResponse_begin_def Let_def)

lemma handler_idle:
  "idle (handleStart s) = idle s"
  "idle (handleStop s)"
  "idle (onConnectionChange s c) = idle s"
  "idle (onTranscription s r) = idle s"
  "idle (onGreetingTimer s) = idle s"
  "idle (onBackendSettled s h) = idle s"
  by (simp_all add: idle_def handleStart_def handleStop_def onConnectionChange_def
      onTranscription_def onGreetingTimer_def onBackendSettled_def begin_simps Let_def
      split: sum.split)

lemma step_idle:
  assumes "idle s" and "step h s e = Some s'"
  shows "idle s'"
proof (cases e)
  case (SpeechSettled who outcome)
  then obtain s1 where s1: "processBackendResponse_resume h s outcome = Some s1"
    and s': "s' = (case who of Greeting \<Rightarrow> s1
                   | Reply \<Rightarrow> s1\<lparr>isProcessing := False, processingStep := ''''\<rparr>)"
    using assms(2) by (auto simp: onSpeechSettled_def split: option.splits)
  have "idle s1"
    using resume_idle [OF assms(1) s1] .
  then show ?thesis
    using s' by (cases who) (simp_all add: idle_def)
qed (use assms in \<open>auto simp: handler_idle\<close>)

lemma run_idle: "idle s \<Longrightarrow> run h s es = Some s' \<Longrightarrow> idle s'"
proof (induction es arbitrary: s)
  case Nil
  then show ?case by simp
next
  case (Cons e es)
  then show ?case
    by (auto split: option.splits dest: step_idle)
qed

lemma step_total: "\<exists>s'. step h s e = Some s'"
proof (cases e)
  case (SpeechSettled who outcome)
  then show ?thesis
    using resume_shape [of h s outcome] by (auto simp: onSpeechSettled_def)
qed simp_all

lemma run_total: "\<exists>s'. run h s es = Some s'"
proof (induction es arbitrary: s)
  case Nil
  then show ?case by simp
next
  case (Cons e es)
  obtain s1 where "step h s e = Some s1"
    using step_total by blast
  then show ?case
    using Cons [of s1] by simp
qed

text \<open>
  Claim C8. A call of \<^verbatim>\<open>processNextAudioChunk\<close> while a delivery is active does
  nothing; otherwise it hands every queued chunk to the sink once, in queue order, and
  leaves the queue empty. Between two events no chunk is waiting and no delivery is
  active.
\<close>

theorem single_drain_fifo:
  "(isProcessingChunk s \<longrightarrow> processNextAudioChunk s = s)
   \<and> (\<not> isProcessingChunk s \<longrightarrow>
        sinkChunks (processNextAudioChunk s) = sinkChunks s @ audioChunkQueue s
        \<and> audioChunkQueue (processNextAudioChunk s) = []
        \<and> \<not> isProcessingChunk (processNextAudioChunk s))
   \<and> (\<exists>s'. run h initial es = Some s' \<and> audioChunkQueue s' = [] \<and> \<not> isProcessingChunk s')"
proof -
  obtain s' where s': "run h initial es = Some s'"
    using run_total by blast
  have "idle initial"
    by (simp add: idle_def initial_def)
  then have "idle s'"
    using run_idle s' by blast
  then show ?thesis
    using drain_blocked drain_all s' by (simp add: idle_def)
qed

theorem single_drain_fifo_witness:
  "isProcessingChunk (initial\<lparr>audioChunkQueue := [[1], [2, 3]], isProcessingChunk := True\<rparr>)
   \<and> processNextAudioChunk (initial\<lparr>audioChunkQueue := [[1], [2, 3]], isProcessingChunk := True\<rparr>)
       = initial\<lparr>audioChunkQueue := [[1], [2, 3]], isProcessingChunk := True\<rparr>
   \<and> \<not> isProcessingChunk (initial\<lparr>audioChunkQueue := [[1], [2, 3]]\<rparr>)
   \<and> sinkChunks (processNextAudioChunk (initial\<lparr>audioChunkQueue := [[1], [2, 3]]\<rparr>))
       = [[1], [2, 3]]
   \<and> audioChunkQueue (processNextAudioChunk (initial\<lparr>audioChunkQueue := [[1], [2, 3]]\<rparr>)) = []"
  using single_drain_fifo [of "initial\<lparr>audioChunkQueue := [[1], [2, 3]], isProcessingChunk := True\<rparr>" exactMath "[]"]
    single_drain_fifo [of "initial\<lparr>audioChunkQueue := [[1], [2, 3]]\<rparr>" exactMath "[]"]
  by (simp add: initial_def)

subsection \<open>The greeting\<close>

lemma greetingCalls_begin:
  "greetingCalls (processBackendResponse_begin s who t) =
     greetingCalls s @ (if who = Greeting then [(who, t)] else [])"
  by (simp add: greetingCalls_def begin_simps)

lemma resume_greeting:
  assumes "processBackendResponse_resume h s outcome = Some s'"
  shows "isFirstRun s' = isFirstRun s \<and> greetingTimers s' = greetingTimers s
         \<and> ttsCalls s' = ttsCalls s"
  using resume_shape [of h s outcome] assms by (auto simp: afterEnqueue_simps)

lemma handler_greetingCalls:
  "greetingCalls (handleStart s) = greetingCalls s"
  "greetingCalls (handleStop s) = greetingCalls s"
  "greetingCalls (onConnectionChange s c) = greetingCalls s"
  "greetingCalls (onTranscription s r) = greetingCalls s"
  "greetingCalls (onGreetingTimer s) =
     greetingCalls s @ (if 0 < greetingTimers s then [greeting] else [])"
  "greetingCalls (onBackendSettled s b) = greetingCalls s"
  by (simp_all add: handleStart_def handleStop_def onConnectionChange_def onTranscription_def
      onGreetingTimer_def onBackendSettled_def greetingCalls_begin greeting_def Let_def
      split: sum.split)
     (simp_all add: greetingCalls_def)

lemma handler_greetingTimers:
  "greetingTimers (handleStart s) = greetingTimers s"
  "greetingTimers (handleStop s) = greetingTimers s"
  "greetingTimers (onConnectionChange s c) =
     greetingTimers s + (if c \<and> isFirstRun s then 1 else 0)"
  "greetingTimers (onTranscription s r) = greetingTimers s"
  "greetingTimers (onGreetingTimer s) = greetingTimers s - 1"
  "greetingTimers (onBackendSettled s b) = greetingTimers s"
  by (simp_all add: handleStart_def handleStop_def onConnectionChange_def onTranscription_def
      onGreetingTimer_def onBackendSettled_def begin_simps Let_def
      split: sum.split)

lemma handler_isFirstRun:
  "isFirstRun (handleStart s) = isFirstRun s"
  "isFirstRun (handleStop s) = isFirstRun s"
  "isFirstRun (onConnectionChange s c) = (isFirstRun s \<and> \<not> c)"
  "isFirstRun (onTranscription s r) = isFirstRun s"
  "isFirstRun (onGreetingTimer s) = isFirstRun s"
  "isFirstRun (onBackendSettled s b) = isFirstRun s"
  by (simp_all add: handleStart_def handleStop_def onConnectionChange_def onTranscription_def
      onGreetingTimer_def onBackendSettled_def begin_simps Let_def
      split: sum.split)

lemma step_greeting:
  assumes "step h s e = Some s'"
  shows "greetingCalls s' =
           greetingCalls s @ (if e = GreetingTimer \<and> 0 < greetingTimers s then [greeting] else [])
         \<and> greetingTimers s' =
           greetingTimers s + (if e = ConnectionChange True \<and> isFirstRun s then 1 else 0)
             - (if e = GreetingTimer then 1 else 0)
         \<and> isFirstRun s' = (isFirstRun s \<and> e \<noteq> ConnectionChange True)"
proof (cases e)
  case (SpeechSettled who outcome)
  then obtain s1 where s1: "processBackendResponse_resume h s outcome = Some s1"
    and s': "s' = (case who of Greeting \<Rightarrow> s1
                   | Reply \<Rightarrow> s1\<lparr>isProcessing := False, processingStep := ''''\<rparr>)"
    using assms by (auto simp: onSpeechSettled_def split: option.splits)
  show ?thesis
    using resume_greeting [OF s1] s' SpeechSettled
    by (cases who) (simp_all add: greetingCalls_def)
qed (use assms in \<open>auto simp: handler_greetingCalls handler_greetingTimers handler_isFirstRun\<close>)

lemma run_settled:
  assumes "run h s es = Some s'" and "\<not> isFirstRun s" and "greetingTimers s = 0"
  shows "greetingCalls s' = greetingCalls s \<and> greetingTimers s' = 0 \<and> \<not> isFirstRun s'"
  using assms
proof (induction es arbitrary: s)
  case Nil
  then show ?case by simp
next
  case (Cons e es)
  then obtain s1 where s1: "step h s e = Some s1" and r: "run h s1 es = Some s'"
    by (auto split: option.splits)
  from step_greeting [OF s1] Cons.prems(2,3)
  have "greetingCalls s1 = greetingCalls s" "greetingTimers s1 = 0" "\<not> isFirstRun s1"
    by simp_all
  with Cons.IH [OF r] show ?case
    by simp
qed

lemma run_pending:
  assumes "run h s es = Some s'" and "\<not> isFirstRun s" and "greetingTimers s = 1"
  shows "greetingCalls s' =
           greetingCalls s @ (if GreetingTimer \<in> set es then [greeting] else [])
         \<and> greetingTimers s' = (if GreetingTimer \<in> set es then 0 else 1)
         \<and> \<not> isFirstRun s'"
  using assms
proof (induction es arbitrary: s)
  case Nil
  then show ?case by simp
next
  case (Cons e es)
  then obtain s1 where s1: "step h s e = Some s1" and r: "run h s1 es = Some s'"
    by (auto split: option.splits)
  show ?case
  proof (cases "e = GreetingTimer")
    case True
    with step_greeting [OF s1] Cons.prems(2,3)
    have "greetingCalls s1 = greetingCalls s @ [greeting]" "greetingTimers s1 = 0"
      "\<not> isFirstRun s1"
      by simp_all
    with run_settled [OF r] True show ?thesis
      by simp
  next
    case False
    with step_greeting [OF s1] Cons.prems(2,3)
    have "greetingCalls s1 = greetingCalls s" "greetingTimers s1 = 1" "\<not> isFirstRun s1"
      by simp_all
    with Cons.IH [OF r] False show ?thesis
      by simp
  qed
qed

lemma run_fresh:
  assumes "run h s es = Some s'" and "isFirstRun s" and "greetingTimers s = 0"
  shows "greetingCalls s' =
           greetingCalls s
           @ (if GreetingTimer \<in> set (dropWhile (\<lambda>e. e \<noteq> ConnectionChange True) es)
              then [greeting] else [])
         \<and> greetingTimers s' =
             (if ConnectionChange True \<in> set es
                 \<and> GreetingTimer \<notin> set (dropWhile (\<lambda>e. e \<noteq> ConnectionChange True) es)
              then 1 else 0)
         \<and> isFirstRun s' = (ConnectionChange True \<notin> set es)"
  using assms
proof (induction es arbitrary: s)
  case Nil
  then show ?case by simp
next
  case (Cons e es)
  then obtain s1 where s1: "step h s e = Some s1" and r: "run h s1 es = Some s'"
    by (auto split: option.splits)
  show ?case
  proof (cases "e = ConnectionChange True")
    case True
    with step_greeting [OF s1] Cons.prems(2,3)
    have "greetingCalls s1 = greetingCalls s" "greetingTimers s1 = 1" "\<not> isFirstRun s1"
      by simp_all
    with run_pending [OF r] True show ?thesis
      by simp
  next
    case False
    with step_greeting [OF s1] Cons.prems(2,3)
    have "greetingCalls s1 = greetingCalls s" "greetingTimers s1 = 0" "isFirstRun s1"
      by simp_all
    with Cons.IH [OF r] False show ?thesis
      by simp
  qed
qed

text \<open>
  Claim C2, amended. Over the whole life of the mounted component, whatever the events
  and however many sessions are started and stopped: the first confirmed connection
  sets the one greeting timer, the greeting is handed to the synthesizer exactly when
  that timer fires, and nothing schedules or speaks a greeting again.
\<close>

theorem greeting_once_per_mount:
  "\<exists>s. run h initial es = Some s
       \<and> greetingCalls s =
           (if GreetingTimer \<in> set (dropWhile (\<lambda>e. e \<noteq> ConnectionChange True) es)
            then [(Greeting, JString ''Hello! How can I help you today?'')] else [])
       \<and> greetingTimers s =
           (if ConnectionChange True \<in> set es
               \<and> GreetingTimer \<notin> set (dropWhile (\<lambda>e. e \<noteq> ConnectionChange True) es)
            then 1 else 0)
       \<and> isFirstRun s = (ConnectionChange True \<notin> set es)"
proof -
  obtain s where s: "run h initial es = Some s"
    using run_total by blast
  have "isFirstRun initial" and "greetingTimers initial = 0" and "greetingCalls initial = []"
    by (simp_all add: initial_def greetingCalls_def)
  with run_fresh [OF s] show ?thesis
    using s by (simp add: greeting_def)
qed

lemma downsample_empty: "downsampleAudio h [] 24000 16000 = Inr []"
proof -
  have "typedArrayLength (Math_floor (js_div (Fin 0) ratio)) = Inr 0" for ratio
    by (cases ratio) (simp_all add: js_div_def zero_def truncate_def)
  then show ?thesis
    by (simp add: downsampleAudio_def Let_def interpolate_def for_loop.simps)
qed

lemma resume_empty:
  "\<not> isProcessingChunk s \<Longrightarrow> audioChunkQueue s = [] \<Longrightarrow>
   processBackendResponse_resume h s (Body []) = Some (s\<lparr>isSpeaking := False\<rparr>)"
  by (simp add: processBackendResponse_resume_def newInt16Array_def downsample_empty
      chunkLoop.simps afterEnqueue_def Let_def processNextAudioChunk.simps)

text \<open>
  The claim as the specification words it fails: after a stop, the second session
  confirms its connection and gets no greeting; and a transcript that arrives before
  the greeting's timer fires is sent to the backend before any greeting is spoken.
\<close>

theorem second_session_counterexample:
  "map_option greetingsSpoken (run exactMath initial firstSession) = Some 1
   \<and> map_option greetingsSpoken (run exactMath initial (firstSession @ secondSession)) = Some 1
   \<and> map_option greetingTimers (run exactMath initial (firstSession @ secondSession)) = Some 0
   \<and> map_option backendCalls (run exactMath initial earlyTranscript) = Some [''hi'']
   \<and> map_option greetingsSpoken (run exactMath initial earlyTranscript) = Some 0"
  by (simp add: firstSession_def secondSession_def earlyTranscript_def initial_def
      handleStart_def handleStop_def onConnectionChange_def onGreetingTimer_def
      onTranscription_def processBackendResponse_begin_def
      onSpeechSettled_def resume_empty greetingsSpoken_def Let_def)

subsection \<open>The backend reply\<close>

lemma text_of_not_null: "v \<noteq> JNull \<Longrightarrow> \<exists>t. text_of v = Inr t"
  by (cases v) simp_all

text \<open>
  A fulfilled request whose body is an array ending in \<^verbatim>\<open>null\<close> makes
  \<^verbatim>\<open>sendMessageToBackend\<close> throw, although the request did not reject.
\<close>

theorem backend_reply_null_counterexample:
  "sendMessageToBackend (Fulfilled (JArray [JNull]))
     = Inl (TypeError ''Cannot read properties of null (reading 'text')'')"
  by (simp add: sendMessageToBackend_def)

text \<open>
  Claim C10, amended. A fulfilled request whose body is not a non-empty array gives the
  reply "Sorry, I didn't get a response."; a last element other than \<^verbatim>\<open>null\<close> without a
  \<^verbatim>\<open>text\<close> property gives "Sorry, I didn't catch that."; the function throws exactly
  when the request rejects or the last element of the array is \<^verbatim>\<open>null\<close>.
\<close>

theorem backend_reply_fallbacks:
  "((\<forall>elements. data \<noteq> JArray elements) \<or> data = JArray [] \<longrightarrow>
      sendMessageToBackend (Fulfilled data) = Inr (JString ''Sorry, I didn't get a response.''))
   \<and> (elements \<noteq> [] \<and> last elements \<noteq> JNull \<and> text_of (last elements) = Inr None \<longrightarrow>
      sendMessageToBackend (Fulfilled (JArray elements))
        = Inr (JString ''Sorry, I didn't catch that.''))
   \<and> ((\<exists>e. sendMessageToBackend outcome = Inl e) =
        ((\<exists>reason. outcome = Rejected reason)
         \<or> (\<exists>elements. outcome = Fulfilled (JArray elements)
               \<and> elements \<noteq> [] \<and> last elements = JNull)))"
proof (intro conjI impI)
  assume "(\<forall>elements. data \<noteq> JArray elements) \<or> data = JArray []"
  then show "sendMessageToBackend (Fulfilled data) = Inr (JString ''Sorry, I didn't get a response.'')"
    by (cases data) (auto simp: sendMessageToBackend_def)
next
  assume a: "elements \<noteq> [] \<and> last elements \<noteq> JNull \<and> text_of (last elements) = Inr None"
  then have "elements ! (length elements - 1) = last elements"
    by (simp add: last_conv_nth)
  then show "sendMessageToBackend (Fulfilled (JArray elements))
        = Inr (JString ''Sorry, I didn't catch that.'')"
    using a by (simp add: sendMessageToBackend_def)
next
  show "(\<exists>e. sendMessageToBackend outcome = Inl e) =
        ((\<exists>reason. outcome = Rejected reason)
         \<or> (\<exists>elements. outcome = Fulfilled (JArray elements)
               \<and> elements \<noteq> [] \<and> last elements = JNull))"
  proof (cases outcome)
    case (Rejected reason)
    then show ?thesis by (simp add: sendMessageToBackend_def)
  next
    case (Fulfilled data)
    show ?thesis
    proof (cases "\<exists>elements. data = JArray elements \<and> elements \<noteq> []")
      case False
      then have "sendMessageToBackend (Fulfilled data) = Inr (JString ''Sorry, I didn't get a response.'')"
        by (cases data) (auto simp: sendMessageToBackend_def)
      then show ?thesis using Fulfilled False by auto
    next
      case True
      then obtain elements where d: "data = JArray elements" "elements \<noteq> []"
        by blast
      show ?thesis
      proof (cases "last elements = JNull")
        case True
        then show ?thesis
          using Fulfilled d by (simp add: sendMessageToBackend_def last_conv_nth)
      next
        case False
        then obtain t where "text_of (last elements) = Inr t"
          using text_of_not_null by blast
        then show ?thesis
          using Fulfilled d False
          by (cases t) (simp_all add: sendMessageToBackend_def last_conv_nth)
      qed
    qed
  qed
qed

theorem backend_reply_fallbacks_witness:
  "sendMessageToBackend (Fulfilled (JObject [(''text'', JString ''hi'')]))
     = Inr (JString ''Sorry, I didn't get a response.'')
   \<and> sendMessageToBackend (Fulfilled (JArray [JObject [(''text'', JString ''hi'')], JObject [(''user'', JString ''bot'')]]))
     = Inr (JString ''Sorry, I didn't catch that.'')
   \<and> (\<exists>e. sendMessageToBackend (Rejected ''Network Error'') = Inl e)"
  using backend_reply_fallbacks [of "JObject [(''text'', JString ''hi'')]"
      "[JObject [(''text'', JString ''hi'')], JObject [(''user'', JString ''bot'')]]"
      "Rejected ''Network Error''"]
  by simp

subsection \<open>Rounding to binary64 and binary32\<close>

text \<open>
  What the rounding does to the values that the resampler meets: multiples of 1/2 below
  \<open>2\<^sup>5\<^sup>2\<close> are kept as they are, a quotient of two small natural numbers is not moved
  across an integer, and every rounding that does not overflow has a relative error of
  at most \<open>2\<^bsup>-53\<^esup>\<close> (binary64) or \<open>2\<^bsup>-24\<^esup>\<close> (binary32), apart from an absolute error
  below the smallest normal number.
\<close>

lemma roundHalfEven_of_int: "roundHalfEven (of_int n) = n"
  by (simp add: roundHalfEven_def)

lemma roundHalfEven_near: "\<bar>real_of_int (roundHalfEven y) - y\<bar> \<le> 1 / 2"
proof -
  define n where "n = \<lfloor>y\<rfloor>"
  have "real_of_int n \<le> y" and "y < real_of_int n + 1"
    unfolding n_def by linarith+
  then show ?thesis
    unfolding roundHalfEven_def Let_def n_def [symmetric] by (simp add: abs_if)
qed

lemma two_powi_less_imp: "(2::real) powi m < 2 powi n \<Longrightarrow> m < n"
proof (rule ccontr)
  assume a: "2 powi m < (2::real) powi n" and "\<not> m < n"
  then have "n \<le> m" by simp
  then have "(2::real) powi n \<le> 2 powi m"
    by (intro power_int_increasing) simp_all
  with a show False by simp
qed

lemma exponent_eq:
  assumes "2 powi e \<le> \<bar>x\<bar>" and "\<bar>x\<bar> < 2 powi (e + 1)"
  shows "exponent x = e"
proof -
  have "0 < (2::real) powi e"
    by simp
  then have x: "0 < \<bar>x\<bar>"
    using assms(1) by linarith
  have "(2::real) powr real_of_int e = 2 powi e"
    "(2::real) powr (real_of_int e + 1) = 2 powi (e + 1)"
    using powr_real_of_int' [of 2 e] powr_real_of_int' [of 2 "e + 1"] by simp_all
  then show ?thesis
    unfolding exponent_def using assms floor_log_eq_powr_iff [OF x, of 2 e] by simp
qed

lemma exponent_bounds:
  assumes "x \<noteq> 0"
  shows "2 powi exponent x \<le> \<bar>x\<bar>" and "\<bar>x\<bar> < 2 powi (exponent x + 1)"
proof -
  have x: "0 < \<bar>x\<bar>"
    using assms by simp
  have "(2::real) powr real_of_int (exponent x) = 2 powi exponent x"
    "(2::real) powr (real_of_int (exponent x) + 1) = 2 powi (exponent x + 1)"
    using powr_real_of_int' [of 2 "exponent x"] powr_real_of_int' [of 2 "exponent x + 1"]
    by simp_all
  then show "2 powi exponent x \<le> \<bar>x\<bar>" and "\<bar>x\<bar> < 2 powi (exponent x + 1)"
    using floor_log_eq_powr_iff [OF x, of 2 "exponent x"] by (simp_all add: exponent_def)
qed

lemma exponent_less:
  assumes "x \<noteq> 0" and "\<bar>x\<bar> < 2 powi n"
  shows "exponent x < n"
proof -
  have "2 powi exponent x < (2::real) powi n"
    using exponent_bounds(1) [OF assms(1)] assms(2) by linarith
  then show ?thesis
    by (rule two_powi_less_imp)
qed

lemma exponent_ge:
  assumes "2 powi n \<le> \<bar>x\<bar>"
  shows "n \<le> exponent x"
proof -
  have "0 < (2::real) powi n" by simp
  then have "0 < \<bar>x\<bar>" using assms by linarith
  then have "x \<noteq> 0" by simp
  then have "2 powi n < (2::real) powi (exponent x + 1)"
    using exponent_bounds(2) assms by fastforce
  then have "n < exponent x + 1"
    by (rule two_powi_less_imp)
  then show ?thesis by simp
qed

text \<open>The value that binary64 rounding computes, before overflow and zero are told apart.\<close>

lemma binary64_unfold:
  assumes "x \<noteq> 0"
  shows "binary64 x =
     (let q = 2 powi (max (exponent x) (- 1022) - 52);
          r = of_int (roundHalfEven (x / q)) * q
      in if 2 powi 1024 \<le> \<bar>r\<bar> then (if 0 < x then PosInf else NegInf)
         else if r = 0 then (if x < 0 then NegZero else Fin 0)
         else Fin r)"
  using assms by (simp add: binary64_def roundTo_def Let_def)

lemma binary64_result:
  assumes "x \<noteq> 0" and "q = 2 powi (max (exponent x) (- 1022) - 52)"
    and "r = real_of_int (roundHalfEven (x / q)) * q"
    and "\<bar>r\<bar> < 2 powi 1024" and "r = 0 \<Longrightarrow> 0 < x"
  shows "binary64 x = Fin r"
proof (cases "r = 0")
  case True
  then show ?thesis
    using assms by (simp add: binary64_unfold Let_def)
next
  case False
  then show ?thesis
    using assms(1-4) by (simp add: binary64_unfold Let_def)
qed

lemma binary64_half_integer:
  assumes "x \<noteq> 0" and "of_int \<lfloor>2 * x\<rfloor> = 2 * x" and "\<bar>x\<bar> < 2 ^ 52"
  shows "binary64 x = Fin x"
proof -
  define k where "k = \<lfloor>2 * x\<rfloor>"
  define e where "e = exponent x"
  have k: "x = of_int k / 2"
    using assms(2) unfolding k_def by linarith
  have "k \<noteq> 0"
    using assms(1) k by auto
  then have "1 \<le> \<bar>real_of_int k\<bar>"
    by (simp add: abs_if)
  then have "2 powi (- 1) \<le> \<bar>x\<bar>"
    unfolding k by (simp add: power_int_minus)
  then have lo: "- 1 \<le> e"
    unfolding e_def by (rule exponent_ge)
  have "\<bar>x\<bar> < 2 powi 52"
    using assms(3) by simp
  then have hi: "e < 52"
    unfolding e_def using assms(1) by (intro exponent_less)
  have m: "max e (- 1022) = e"
    using lo by simp
  define q :: real where "q = 2 powi (e - 52)"
  have q: "0 < q"
    by (simp add: q_def)
  have "1 / q = 2 powi (52 - e)"
    unfolding q_def using power_int_minus [of "2::real" "e - 52"] by (simp add: field_simps)
  also have "\<dots> = 2 ^ nat (52 - e)"
    using hi by (simp add: power_int_nonneg_exp)
  also have "\<dots> = 2 * 2 ^ nat (51 - e)"
  proof -
    have "nat (52 - e) = Suc (nat (51 - e))"
      using hi by simp
    then show ?thesis by simp
  qed
  finally have "1 / q = 2 * 2 ^ nat (51 - e)" .
  moreover have "x / q = x * (1 / q)"
    by simp
  ultimately have "x / q = real_of_int (k * 2 ^ nat (51 - e))"
    unfolding k by (simp only:) simp
  then have "real_of_int (roundHalfEven (x / q)) * q = x"
    using q by (simp only: roundHalfEven_of_int) (simp add: field_simps)
  moreover have "\<bar>x\<bar> < 2 powi 1024"
  proof -
    have "(2::real) ^ 52 \<le> 2 ^ 1024"
      by (rule power_increasing) simp_all
    then show ?thesis
      using assms(3) by simp
  qed
  ultimately show ?thesis
    using assms(1) m by (intro binary64_result [where q = q]) (simp_all add: q_def e_def)
qed

lemma binary64_eval:
  assumes "2 powi e \<le> \<bar>x\<bar>" and "\<bar>x\<bar> < 2 powi (e + 1)" and "- 1022 \<le> e"
    and "r = of_int (roundHalfEven (x / 2 powi (e - 52))) * 2 powi (e - 52)"
    and "\<bar>r\<bar> < 2 powi 1024" and "r \<noteq> 0"
  shows "binary64 x = Fin r"
proof -
  have e: "exponent x = e"
    using assms(1,2) by (rule exponent_eq)
  have "0 < (2::real) powi e"
    by simp
  then have "0 < \<bar>x\<bar>"
    using assms(1) by linarith
  then have "x \<noteq> 0"
    by simp
  then show ?thesis
    using assms(3-6) e
    by (intro binary64_result [where q = "2 powi (e - 52)"]) (simp_all add: max_def)
qed

lemma roundHalfEven_ge: "real_of_int N \<le> y \<Longrightarrow> N \<le> roundHalfEven y"
proof -
  assume "real_of_int N \<le> y"
  then have "N \<le> \<lfloor>y\<rfloor>"
    by (simp add: le_floor_iff)
  then show ?thesis
    unfolding roundHalfEven_def Let_def by simp
qed

lemma binary64_zero: "binary64 0 = Fin 0"
  by (simp add: binary64_def roundTo_def)

lemma binary64_exact:
  assumes "of_int \<lfloor>2 * x\<rfloor> = 2 * x" and "\<bar>x\<bar> < 2 ^ 52"
  shows "binary64 x = Fin x"
  using assms by (cases "x = 0") (simp_all add: binary64_zero binary64_half_integer)

text \<open>Finite operands: the value of a result that needs no rounding.\<close>

lemma js_neg_finite:
  "isFinite a \<Longrightarrow> isFinite (js_neg a) \<and> realOf (js_neg a) = - realOf a"
  by (cases a) simp_all

lemma js_add_exact:
  assumes "isFinite a" and "isFinite b"
    and "of_int \<lfloor>2 * (realOf a + realOf b)\<rfloor> = 2 * (realOf a + realOf b)"
    and "\<bar>realOf a + realOf b\<bar> < 2 ^ 52"
  shows "isFinite (js_add a b) \<and> realOf (js_add a b) = realOf a + realOf b"
proof -
  have "a \<noteq> NaN" "b \<noteq> NaN" "\<not> isInfinite a" "\<not> isInfinite b"
    using assms(1,2) by (cases a; cases b; simp)+
  then show ?thesis
    using binary64_exact [OF assms(3,4)] by (simp add: js_add_def)
qed

lemma js_sub_exact:
  assumes "isFinite a" and "isFinite b"
    and "of_int \<lfloor>2 * (realOf a - realOf b)\<rfloor> = 2 * (realOf a - realOf b)"
    and "\<bar>realOf a - realOf b\<bar> < 2 ^ 52"
  shows "isFinite (js_sub a b) \<and> realOf (js_sub a b) = realOf a - realOf b"
  unfolding js_sub_def
  using js_add_exact [of a "js_neg b"] js_neg_finite [of b] assms by simp

lemma js_mul_exact:
  assumes "isFinite a" and "isFinite b"
    and "of_int \<lfloor>2 * (realOf a * realOf b)\<rfloor> = 2 * (realOf a * realOf b)"
    and "\<bar>realOf a * realOf b\<bar> < 2 ^ 52"
  shows "isFinite (js_mul a b) \<and> realOf (js_mul a b) = realOf a * realOf b"
proof -
  have "a \<noteq> NaN" "b \<noteq> NaN" "\<not> isInfinite a" "\<not> isInfinite b"
    using assms(1,2) by (cases a; cases b; simp)+
  then show ?thesis
    using binary64_exact [OF assms(3,4)] by (simp add: js_mul_def zero_def)
qed

lemma Math_floor_finite:
  "isFinite a \<Longrightarrow> isFinite (Math_floor a) \<and> realOf (Math_floor a) = of_int \<lfloor>realOf a\<rfloor>"
  by (cases a) simp_all

lemma js_lt_finite: "isFinite a \<Longrightarrow> isFinite b \<Longrightarrow> js_lt a b = (realOf a < realOf b)"
  by (cases a; cases b; simp add: js_lt_def)

lemma element_finite:
  assumes "isFinite v" and "realOf v = real n" and "n < length xs"
  shows "element xs v = Fin (real_of_int (sint (xs ! n)))"
proof (cases v)
  case (Fin x)
  then show ?thesis
    using assms by simp
next
  case NegZero
  then show ?thesis
    using assms by auto
qed (use assms in simp_all)

lemma truncate_of_int: "truncate (of_int n) = n"
  by (simp add: truncate_def)

lemma toInt16_round:
  "isFinite v \<Longrightarrow> toInt16 (Math_round v) = word_of_int \<lfloor>realOf v + 1 / 2\<rfloor>"
  by (cases v) (simp_all add: truncate_of_int)

lemma round_error:
  assumes "0 < q"
  shows "\<bar>real_of_int (roundHalfEven (x / q)) * q - x\<bar> \<le> q / 2"
proof -
  have "\<bar>real_of_int (roundHalfEven (x / q)) - x / q\<bar> * q \<le> 1 / 2 * q"
    using roundHalfEven_near [of "x / q"] assms by (intro mult_right_mono) simp_all
  moreover have "\<bar>real_of_int (roundHalfEven (x / q)) - x / q\<bar> * q
                   = \<bar>(real_of_int (roundHalfEven (x / q)) - x / q) * q\<bar>"
    using assms by (simp add: abs_mult)
  moreover have "(real_of_int (roundHalfEven (x / q)) - x / q) * q
                   = real_of_int (roundHalfEven (x / q)) * q - x"
    using assms by (simp add: field_simps)
  ultimately show ?thesis
    by simp
qed

text \<open>
  The quotient of two natural numbers below \<open>2\<^sup>5\<^sup>2\<close>: rounding it to binary64 does not
  move it across an integer.
\<close>

lemma binary64_floor_quotient:
  fixes m k :: nat
  assumes "0 < m" and "0 < k" and "m < 2 ^ 52" and "k < 2 ^ 52"
  shows "\<exists>r. binary64 (real m / real k) = Fin r \<and> \<lfloor>r\<rfloor> = int (m div k)"
proof -
  define x where "x = real m / real k"
  define n where "n = m div k"
  define e where "e = exponent x"
  define q :: real where "q = 2 powi (e - 52)"
  define r where "r = real_of_int (roundHalfEven (x / q)) * q"
  have k: "0 < real k" and m: "1 \<le> real m"
    using assms(1,2) by simp_all
  have x: "0 < x"
    using assms(1,2) by (simp add: x_def)
  have mk: "real m = real n * real k + real (m mod k)"
    unfolding n_def by (metis div_mult_mod_eq of_nat_add of_nat_mult)
  have "real (m mod k) \<le> real k - 1"
    using assms(2) mod_less_divisor [of k m] by linarith
  then have "real m \<le> (real n + 1) * real k - 1"
    using mk by (simp add: algebra_simps)
  then have "x \<le> ((real n + 1) * real k - 1) / real k"
    unfolding x_def using k by (intro divide_right_mono) simp_all
  also have "\<dots> = real n + 1 - 1 / real k"
    using k by (simp add: field_simps)
  finally have upper: "x \<le> real n + 1 - 1 / real k" .
  have "real n * real k \<le> real m"
    using mk by simp
  then have lower: "real n \<le> x"
    unfolding x_def using k by (simp add: field_simps)
  have "real k < 2 ^ 52" and m52: "real m < 2 ^ 52"
    using assms(3,4) by (metis of_nat_less_iff of_nat_numeral of_nat_power)+
  then have "1 / 2 ^ 52 < 1 / real k"
    using k by (intro divide_strict_left_mono) simp_all
  moreover have "1 / real k \<le> x"
    unfolding x_def using k m by (intro divide_right_mono) simp_all
  ultimately have "2 powi (- 52) \<le> \<bar>x\<bar>"
    using x by (simp add: power_int_minus field_simps)
  then have lo: "- 52 \<le> e"
    unfolding e_def by (rule exponent_ge)
  have "x \<le> real m"
  proof -
    have "real m / real k \<le> real m / 1"
      using assms(2) by (intro divide_left_mono) simp_all
    then show ?thesis
      by (simp add: x_def)
  qed
  then have "\<bar>x\<bar> < 2 powi 52"
    using x m52 by simp
  then have hi: "e < 52"
    unfolding e_def using x by (intro exponent_less) simp_all
  have q: "0 < q"
    by (simp add: q_def)
  have "1 / q = 2 powi (52 - e)"
    unfolding q_def using power_int_minus [of "2::real" "e - 52"] by (simp add: field_simps)
  also have "\<dots> = 2 ^ nat (52 - e)"
    using hi by (simp add: power_int_nonneg_exp)
  finally have inv: "1 / q = 2 ^ nat (52 - e)" .
  have "real n / q = real n * (1 / q)"
    by simp
  also have "\<dots> = real_of_int (int n * 2 ^ nat (52 - e))"
    by (simp only: inv) simp
  finally have "real n / q = real_of_int (int n * 2 ^ nat (52 - e))" .
  moreover have "real n / q \<le> x / q"
    using lower q by (intro divide_right_mono) simp_all
  ultimately have "real_of_int (int n * 2 ^ nat (52 - e)) \<le> x / q"
    by (simp only:)
  then have "int n * 2 ^ nat (52 - e) \<le> roundHalfEven (x / q)"
    by (rule roundHalfEven_ge)
  then have "real_of_int (int n * 2 ^ nat (52 - e)) \<le> real_of_int (roundHalfEven (x / q))"
    by (simp only: of_int_le_iff)
  then have "real_of_int (int n * 2 ^ nat (52 - e)) * q \<le> r"
    unfolding r_def using q by (intro mult_right_mono) (assumption, simp)
  moreover have "real_of_int (int n * 2 ^ nat (52 - e)) * q = real n"
  proof -
    have "real_of_int (int n * 2 ^ nat (52 - e)) * q = real n * ((1 / q) * q)"
      by (simp only: inv) simp
    then show ?thesis
      using q by simp
  qed
  ultimately have r_lower: "real n \<le> r"
    by (simp only:)
  have "2 powi e \<le> \<bar>x\<bar>"
    unfolding e_def using x by (intro exponent_bounds) simp
  then have "2 powi e \<le> x"
    using x by simp
  moreover have "q / 2 = 2 powi e / 2 ^ 53"
    unfolding q_def using power_int_add [of "2::real" "e - 52" 52] by simp
  ultimately have "q / 2 \<le> x / 2 ^ 53"
    by (simp add: divide_right_mono)
  also have "x / 2 ^ 53 = (real m / 2 ^ 53) / real k"
    by (simp add: x_def)
  also have "\<dots> < 1 / real k"
    using k m52 by (intro divide_strict_right_mono) simp_all
  finally have "q / 2 < 1 / real k" .
  then have r_upper: "r < real n + 1"
    using round_error [OF q, of x] upper unfolding r_def [symmetric] by linarith
  have fl: "\<lfloor>r\<rfloor> = int n"
    using r_lower r_upper by (simp add: floor_eq_iff)
  have "0 \<le> r"
    using r_lower by (metis of_nat_0_le_iff order_trans)
  have "real n \<le> real m"
    using lower \<open>x \<le> real m\<close> by linarith
  then have "r < 2 ^ 52 + 1"
    using r_upper m52 by linarith
  moreover have "(2::real) ^ 52 + 1 \<le> 2 ^ 1024"
  proof -
    have "(2::real) ^ 53 \<le> 2 ^ 1024"
      by (rule power_increasing) simp_all
    moreover have "(2::real) ^ 52 + 1 \<le> 2 ^ 53"
      by simp
    ultimately show ?thesis by linarith
  qed
  ultimately have "\<bar>r\<bar> < 2 powi 1024"
    using \<open>0 \<le> r\<close> by simp
  moreover have "max (exponent x) (- 1022) = e"
    using lo by (simp add: e_def)
  ultimately have "binary64 x = Fin r"
    using x by (intro binary64_result [where q = q]) (simp_all add: q_def r_def)
  then show ?thesis
    using fl by (simp add: x_def n_def)
qed

text \<open>The error of one rounding that does not overflow.\<close>

lemma roundTo_value:
  assumes "isFinite (roundTo p emin emax x)"
  shows "realOf (roundTo p emin emax x)
           = real_of_int (roundHalfEven (x / 2 powi (max (exponent x) emin - (int p - 1))))
               * 2 powi (max (exponent x) emin - (int p - 1))"
proof (cases "x = 0")
  case True
  then show ?thesis
    by (simp add: roundTo_def roundHalfEven_def)
next
  case False
  then show ?thesis
    using assms unfolding roundTo_def Let_def by (auto split: if_splits)
qed

lemma roundTo_error:
  assumes "isFinite (roundTo p emin emax x)"
  shows "\<bar>realOf (roundTo p emin emax x) - x\<bar>
           \<le> \<bar>x\<bar> * 2 powi (- int p) + 2 powi (emin - int p)"
proof (cases "x = 0")
  case True
  then show ?thesis
    by (simp add: roundTo_def)
next
  case False
  define e where "e = max (exponent x) emin"
  define q :: real where "q = 2 powi (e - (int p - 1))"
  have q: "0 < q"
    by (simp add: q_def)
  have "realOf (roundTo p emin emax x) = real_of_int (roundHalfEven (x / q)) * q"
    unfolding q_def e_def using assms by (rule roundTo_value)
  then have err: "\<bar>realOf (roundTo p emin emax x) - x\<bar> \<le> q / 2"
    using round_error [OF q, of x] by simp
  have "(2::real) powi (e - (int p - 1)) = 2 powi ((e - int p) + 1)"
    by (rule arg_cong [where f = "\<lambda>n. 2 powi n"]) simp
  also have "\<dots> = 2 powi (e - int p) * 2 powi 1"
    by (rule power_int_add) simp
  finally have "q = 2 powi (e - int p) * 2"
    unfolding q_def by simp
  then have half: "q / 2 = 2 powi (e - int p)"
    by simp
  have "2 powi (e - int p) \<le> \<bar>x\<bar> * 2 powi (- int p) + 2 powi (emin - int p)"
  proof (cases "emin \<le> exponent x")
    case True
    then have "e = exponent x"
      by (simp add: e_def)
    then have "2 powi e \<le> \<bar>x\<bar>"
      using exponent_bounds(1) [OF False] by simp
    then have "2 powi e * 2 powi (- int p) \<le> \<bar>x\<bar> * 2 powi (- int p)"
      by (intro mult_right_mono) simp_all
    moreover have "2 powi (e - int p) = 2 powi e * (2::real) powi (- int p)"
      using power_int_add [of "2::real" e "- int p"] by simp
    moreover have "0 \<le> (2::real) powi (emin - int p)"
      by simp
    ultimately show ?thesis
      by linarith
  next
    case False
    then have "e = emin"
      by (simp add: e_def)
    moreover have "0 \<le> \<bar>x\<bar> * 2 powi (- int p)"
      by simp
    ultimately show ?thesis
      by simp
  qed
  then show ?thesis
    using err half by linarith
qed

lemma binary64_error:
  "isFinite (binary64 x) \<Longrightarrow>
   \<bar>realOf (binary64 x) - x\<bar> \<le> \<bar>x\<bar> * 2 powi (- 53) + 2 powi (- 1075)"
  unfolding binary64_def using roundTo_error [of 53 "- 1022" 1023 x] by simp

lemma binary32_error:
  "isFinite (binary32 x) \<Longrightarrow>
   \<bar>realOf (binary32 x) - x\<bar> \<le> \<bar>x\<bar> * 2 powi (- 24) + 2 powi (- 150)"
  unfolding binary32_def using roundTo_error [of 24 "- 126" 127 x] by simp

text \<open>The operations on finite operands, up to the rounding of the result.\<close>

lemma js_add_not_finite: "\<not> isFinite a \<Longrightarrow> \<not> isFinite (js_add a b)"
  by (cases a; cases b; simp add: js_add_def)

lemma js_add_error:
  assumes "isFinite a" and "isFinite b" and "isFinite (js_add a b)"
  shows "\<bar>realOf (js_add a b) - (realOf a + realOf b)\<bar>
           \<le> \<bar>realOf a + realOf b\<bar> * 2 powi (- 53) + 2 powi (- 1075)"
proof -
  have n: "a \<noteq> NaN" "b \<noteq> NaN" "\<not> isInfinite a" "\<not> isInfinite b"
    using assms(1,2) by (cases a; cases b; simp)+
  show ?thesis
  proof (cases "realOf a + realOf b = 0")
    case True
    then show ?thesis
      using n by (simp add: js_add_def)
  next
    case False
    then have "js_add a b = binary64 (realOf a + realOf b)"
      using n by (simp add: js_add_def)
    then show ?thesis
      using assms(3) binary64_error [of "realOf a + realOf b"] by simp
  qed
qed

lemma js_div_error:
  assumes "isFinite a" and "isFinite b" and "realOf b \<noteq> 0" and "isFinite (js_div a b)"
  shows "\<bar>realOf (js_div a b) - realOf a / realOf b\<bar>
           \<le> \<bar>realOf a / realOf b\<bar> * 2 powi (- 53) + 2 powi (- 1075)"
proof -
  have n: "a \<noteq> NaN" "b \<noteq> NaN" "\<not> isInfinite a" "\<not> isInfinite b" "\<not> isZero b"
    using assms(1-3) by (cases a; cases b; simp)+
  show ?thesis
  proof (cases "isZero a")
    case True
    then have "realOf a = 0"
      by (cases a) simp_all
    then show ?thesis
      using True n by (simp add: js_div_def zero_def)
  next
    case False
    then have "js_div a b = binary64 (realOf a / realOf b)"
      using n by (simp add: js_div_def)
    then show ?thesis
      using assms(4) binary64_error [of "realOf a / realOf b"] by simp
  qed
qed

lemma fround_finite: "isFinite (fround a) \<Longrightarrow> isFinite a"
  by (cases a) simp_all

lemma fround_error:
  assumes "isFinite (fround a)"
  shows "\<bar>realOf (fround a) - realOf a\<bar> \<le> \<bar>realOf a\<bar> * 2 powi (- 24) + 2 powi (- 150)"
proof (cases a)
  case (Fin x)
  then show ?thesis
    using assms binary32_error [of x] by simp
qed (use assms in simp_all)

lemma roundHalfEven_le: "y \<le> real_of_int N \<Longrightarrow> roundHalfEven y \<le> N"
proof -
  assume y: "y \<le> real_of_int N"
  have fl: "\<lfloor>y\<rfloor> \<le> N"
    using y by (simp add: floor_le_iff)
  show ?thesis
  proof (cases "y - real_of_int \<lfloor>y\<rfloor> < 1 / 2")
    case True
    then show ?thesis
      using fl by (simp add: roundHalfEven_def Let_def)
  next
    case False
    then have "real_of_int \<lfloor>y\<rfloor> < y"
      by linarith
    then have "real_of_int \<lfloor>y\<rfloor> < real_of_int N"
      using y by linarith
    then have "\<lfloor>y\<rfloor> < N"
      by (simp only: of_int_less_iff)
    then show ?thesis
      by (simp add: roundHalfEven_def Let_def)
  qed
qed

text \<open>A value of magnitude at most \<open>2\<^sup>n\<close> is rounded to one of magnitude at most \<open>2\<^sup>n\<close>.\<close>

lemma binary64_bound:
  fixes n :: nat
  assumes "\<bar>x\<bar> \<le> 2 ^ n" and "n \<le> 1023"
  shows "isFinite (binary64 x) \<and> \<bar>realOf (binary64 x)\<bar> \<le> 2 ^ n"
proof (cases "x = 0")
  case True
  then show ?thesis
    by (simp add: binary64_zero)
next
  case False
  define e where "e = max (exponent x) (- 1022)"
  define q :: real where "q = 2 powi (e - 52)"
  define r where "r = real_of_int (roundHalfEven (x / q)) * q"
  define N :: int where "N = 2 ^ nat (int n - e + 52)"
  have q: "0 < q"
    by (simp add: q_def)
  have "\<bar>x\<bar> < 2 powi (int n + 1)"
  proof -
    have "(2::real) ^ n < 2 ^ Suc n"
      by simp
    also have "\<dots> = 2 powi (int n + 1)"
      by (simp add: power_int_def nat_add_distrib)
    finally show ?thesis
      using assms(1) by linarith
  qed
  then have "exponent x < int n + 1"
    using False by (intro exponent_less)
  then have e: "e \<le> int n"
    by (simp add: e_def)
  have "real_of_int N * q = 2 powi (int n - e + 52) * 2 powi (e - 52)"
    unfolding N_def q_def using e by (simp add: power_int_def)
  also have "\<dots> = 2 powi int n"
    using power_int_add [of "2::real" "int n - e + 52" "e - 52"] by simp
  finally have Nq: "real_of_int N * q = 2 ^ n"
    by simp
  then have Nq': "real_of_int N = 2 ^ n / q"
    using q by (simp add: field_simps)
  have "x \<le> 2 ^ n" and "- (2 ^ n) \<le> x"
    using assms(1) by linarith+
  then have "x / q \<le> 2 ^ n / q" and "(- (2 ^ n)) / q \<le> x / q"
    using q by (simp_all only: divide_right_mono less_imp_le)
  moreover have "real_of_int (- N) = (- (2 ^ n)) / q"
    by (simp add: Nq')
  ultimately have "x / q \<le> real_of_int N" and "real_of_int (- N) \<le> x / q"
    by (simp_all only: Nq')
  then have "roundHalfEven (x / q) \<le> N" and "- N \<le> roundHalfEven (x / q)"
    using roundHalfEven_le [of "x / q" N] roundHalfEven_ge [of "- N" "x / q"] by blast+
  then have "\<bar>real_of_int (roundHalfEven (x / q))\<bar> \<le> real_of_int N"
    by linarith
  then have "\<bar>real_of_int (roundHalfEven (x / q))\<bar> * q \<le> real_of_int N * q"
    using q by (intro mult_right_mono) simp_all
  then have r: "\<bar>r\<bar> \<le> 2 ^ n"
    using q by (simp add: r_def abs_mult Nq)
  have "(2::real) ^ n \<le> 2 ^ 1023"
    using assms(2) by (intro power_increasing) simp_all
  moreover have "(2::real) ^ 1023 < 2 ^ 1024"
    by simp
  ultimately have "\<bar>r\<bar> < 2 powi 1024"
    using r by simp
  then have "isFinite (binary64 x) \<and> realOf (binary64 x) = r"
    unfolding binary64_unfold [OF False] Let_def e_def [symmetric] q_def [symmetric]
      r_def [symmetric] by simp
  then show ?thesis
    using r by simp
qed

lemma js_mul_bound:
  fixes n :: nat
  assumes "isFinite a" and "isFinite b" and "\<bar>realOf a * realOf b\<bar> \<le> 2 ^ n" and "n \<le> 1023"
  shows "isFinite (js_mul a b) \<and> \<bar>realOf (js_mul a b)\<bar> \<le> 2 ^ n"
proof -
  have "a \<noteq> NaN" "b \<noteq> NaN" "\<not> isInfinite a" "\<not> isInfinite b"
    using assms(1,2) by (cases a; cases b; simp)+
  then show ?thesis
    using binary64_bound [OF assms(3,4)] by (simp add: js_mul_def zero_def)
qed

lemma js_add_bound:
  fixes n :: nat
  assumes "isFinite a" and "isFinite b" and "\<bar>realOf a + realOf b\<bar> \<le> 2 ^ n" and "n \<le> 1023"
  shows "isFinite (js_add a b) \<and> \<bar>realOf (js_add a b)\<bar> \<le> 2 ^ n"
proof -
  have "a \<noteq> NaN" "b \<noteq> NaN" "\<not> isInfinite a" "\<not> isInfinite b"
    using assms(1,2) by (cases a; cases b; simp)+
  then show ?thesis
    using binary64_bound [OF assms(3,4)] by (simp add: js_add_def)
qed

lemma js_div_bound:
  fixes n :: nat
  assumes "isFinite a" and "isFinite b" and "realOf b \<noteq> 0"
    and "\<bar>realOf a / realOf b\<bar> \<le> 2 ^ n" and "n \<le> 1023"
  shows "isFinite (js_div a b) \<and> \<bar>realOf (js_div a b)\<bar> \<le> 2 ^ n"
proof -
  have "a \<noteq> NaN" "b \<noteq> NaN" "\<not> isInfinite a" "\<not> isInfinite b" "\<not> isZero b"
    using assms(1-3) by (cases a; cases b; simp)+
  then show ?thesis
    using binary64_bound [OF assms(4,5)] by (simp add: js_div_def zero_def)
qed

subsection \<open>The resampler\<close>

lemma interpolate_fill:
  "interpolate filteredData ratio newLength =
     for_loop 0 newLength
       (\<lambda>i result. result[i :=
          (let position = js_mul (Fin (real i)) ratio;
               index = Math_floor position;
               fraction = js_sub position index
           in if js_lt (js_add index (Fin 1)) (Fin (real (length filteredData))) then
                (let a = element filteredData index;
                     b = element filteredData (js_add index (Fin 1))
                 in toInt16 (Math_round (js_add a (js_mul fraction (js_sub b a)))))
              else toInt16 (element filteredData index))])
       (replicate newLength 0)"
  unfolding interpolate_def Let_def
  by (rule arg_cong [where f = "\<lambda>body. for_loop 0 newLength body (replicate newLength 0)"])
    (intro ext, simp)

lemma interpolate_length: "length (interpolate filteredData ratio newLength) = newLength"
  by (simp only: interpolate_fill for_loop_fill_length length_replicate)

lemma interpolate_nth:
  assumes "i < newLength"
  shows "interpolate filteredData ratio newLength ! i =
          (let position = js_mul (Fin (real i)) ratio;
               index = Math_floor position;
               fraction = js_sub position index
           in if js_lt (js_add index (Fin 1)) (Fin (real (length filteredData))) then
                (let a = element filteredData index;
                     b = element filteredData (js_add index (Fin 1))
                 in toInt16 (Math_round (js_add a (js_mul fraction (js_sub b a)))))
              else toInt16 (element filteredData index))"
  using assms by (simp only: interpolate_fill) (simp add: for_loop_fill_nth)

lemma applyLowPassFilter_length:
  "length (applyLowPassFilter h data cutoffFreq sampleRate) = length data"
  by (simp add: applyLowPassFilter_def Let_def for_loop_fill_length)

lemma applyLowPassFilter_nth:
  "i < length data \<Longrightarrow>
   applyLowPassFilter h data cutoffFreq sampleRate ! i
     = toInt16 (Math_round (filterSum (lowPassCoefficients h cutoffFreq sampleRate) data i))"
  by (simp add: applyLowPassFilter_def Let_def for_loop_fill_nth)

lemma half_integerI: "2 * x = real_of_int z \<Longrightarrow> real_of_int \<lfloor>2 * x\<rfloor> = 2 * x"
  by simp

lemma sint16_bounds: "\<bar>real_of_int (sint (w :: int16))\<bar> \<le> 32768"
proof -
  have "- (2 ^ (LENGTH(16) - 1)) \<le> sint w" and "sint w < 2 ^ (LENGTH(16) - 1)"
    by (rule sint_ge, rule sint_lt)
  then have "- 32768 \<le> sint w" and "sint w < 32768"
    by simp_all
  then show ?thesis
    by linarith
qed

text \<open>
  A ratio that is a multiple of 1/2: every step of the interpolation is exact, the
  branch that interpolates is the one taken, and the stored sample is the interpolated
  value rounded by \<^verbatim>\<open>Math.round\<close>.
\<close>

lemma interpolate_exact:
  fixes k :: nat
  assumes "i < newLength"
    and "nat \<lfloor>real i * (real k / 2)\<rfloor> + 1 < length filteredData"
    and "length filteredData < 2 ^ 51"
  shows "interpolate filteredData (Fin (real k / 2)) newLength ! i =
     word_of_int
       \<lfloor>real_of_int (sint (filteredData ! nat \<lfloor>real i * (real k / 2)\<rfloor>))
        + (real i * (real k / 2) - real_of_int \<lfloor>real i * (real k / 2)\<rfloor>)
          * (real_of_int (sint (filteredData ! (nat \<lfloor>real i * (real k / 2)\<rfloor> + 1)))
             - real_of_int (sint (filteredData ! nat \<lfloor>real i * (real k / 2)\<rfloor>)))
        + 1 / 2\<rfloor>"
proof -
  define p where "p = real i * (real k / 2)"
  define n where "n = nat \<lfloor>p\<rfloor>"
  define f where "f = p - real_of_int \<lfloor>p\<rfloor>"
  define a where "a = sint (filteredData ! n)"
  define b where "b = sint (filteredData ! (n + 1))"
  define position where "position = js_mul (Fin (real i)) (Fin (real k / 2))"
  define index where "index = Math_floor position"
  define fraction where "fraction = js_sub position index"
  define next_index where "next_index = js_add index (Fin 1)"
  define d where "d = js_sub (Fin (real_of_int b)) (Fin (real_of_int a))"
  define w where "w = js_mul fraction d"
  define v where "v = js_add (Fin (real_of_int a)) w"
  have p0: "0 \<le> p"
    by (simp add: p_def)
  then have fl: "real_of_int \<lfloor>p\<rfloor> = real n"
    by (simp add: n_def)
  have p2: "2 * p = real_of_int (int (i * k))"
    by (simp add: p_def)
  have n: "n + 1 < length filteredData"
    using assms(2) by (simp add: n_def p_def)
  have "real (length filteredData) < 2 ^ 51"
    using assms(3) by (metis of_nat_less_iff of_nat_numeral of_nat_power)
  moreover have "real n + 1 < real (length filteredData)"
    using n by linarith
  ultimately have n51: "real n + 1 < 2 ^ 51"
    by linarith
  have "p < real n + 1"
    using fl by linarith
  then have p51: "\<bar>p\<bar> < 2 ^ 52"
    using p0 n51 by simp
  have f2: "2 * f = real_of_int (int (i * k) - 2 * int n)"
    using p2 fl by (simp add: f_def)
  have f01: "0 \<le> f" "f < 1"
    unfolding f_def by linarith+
  have position: "isFinite position \<and> realOf position = p"
    unfolding position_def using js_mul_exact [of "Fin (real i)" "Fin (real k / 2)"] p2 p51
    by (simp add: p_def)
  then have index: "isFinite index \<and> realOf index = real n"
    unfolding index_def using Math_floor_finite [of position] fl by simp
  have fraction: "isFinite fraction \<and> realOf fraction = f"
  proof -
    have "real_of_int \<lfloor>2 * (realOf position - realOf index)\<rfloor>
            = 2 * (realOf position - realOf index)"
      using position index f2 fl by (intro half_integerI [where z = "int (i * k) - 2 * int n"])
        (simp add: f_def)
    moreover have "\<bar>realOf position - realOf index\<bar> < 2 ^ 52"
      using position index f01 fl by (simp add: f_def)
    ultimately show ?thesis
      unfolding fraction_def using js_sub_exact [of position index] position index fl
      by (simp add: f_def)
  qed
  have next_index: "isFinite next_index \<and> realOf next_index = real (n + 1)"
  proof -
    have "real_of_int \<lfloor>2 * (realOf index + realOf (Fin 1))\<rfloor>
            = 2 * (realOf index + realOf (Fin 1))"
      using index by (intro half_integerI [where z = "2 * int n + 2"]) simp
    moreover have "\<bar>realOf index + realOf (Fin 1)\<bar> < 2 ^ 52"
      using index n51 by simp
    ultimately show ?thesis
      unfolding next_index_def using js_add_exact [of index "Fin 1"] index by simp
  qed
  have lt: "js_lt next_index (Fin (real (length filteredData)))"
    using next_index n by (simp add: js_lt_finite)
  have ea: "element filteredData index = Fin (real_of_int a)"
    unfolding a_def using index n by (intro element_finite) simp_all
  have eb: "element filteredData next_index = Fin (real_of_int b)"
    unfolding b_def using next_index n by (intro element_finite) simp_all
  have ab: "\<bar>real_of_int a\<bar> \<le> 32768" "\<bar>real_of_int b\<bar> \<le> 32768"
    unfolding a_def b_def by (rule sint16_bounds)+
  have d: "isFinite d \<and> realOf d = real_of_int (b - a)"
  proof -
    have "real_of_int \<lfloor>2 * (realOf (Fin (real_of_int b)) - realOf (Fin (real_of_int a)))\<rfloor>
            = 2 * (realOf (Fin (real_of_int b)) - realOf (Fin (real_of_int a)))"
      by (intro half_integerI [where z = "2 * (b - a)"]) simp
    moreover have "\<bar>realOf (Fin (real_of_int b)) - realOf (Fin (real_of_int a))\<bar> < 2 ^ 52"
      using ab by simp
    ultimately show ?thesis
      unfolding d_def using js_sub_exact [of "Fin (real_of_int b)" "Fin (real_of_int a)"]
      by simp
  qed
  have fd: "\<bar>f * real_of_int (b - a)\<bar> \<le> 65536"
  proof -
    have "\<bar>f * real_of_int (b - a)\<bar> = f * \<bar>real_of_int (b - a)\<bar>"
      using f01 by (simp add: abs_mult)
    also have "\<dots> \<le> 1 * \<bar>real_of_int (b - a)\<bar>"
      using f01 by (intro mult_right_mono) simp_all
    also have "\<dots> \<le> 65536"
      using ab by simp
    finally show ?thesis .
  qed
  have w: "isFinite w \<and> realOf w = f * real_of_int (b - a)"
  proof -
    have "2 * (f * real_of_int (b - a)) = (2 * f) * real_of_int (b - a)"
      by simp
    also have "\<dots> = real_of_int ((int (i * k) - 2 * int n) * (b - a))"
      by (simp only: f2 of_int_mult)
    finally have "real_of_int \<lfloor>2 * (realOf fraction * realOf d)\<rfloor>
            = 2 * (realOf fraction * realOf d)"
      using fraction d by (intro half_integerI [where z = "(int (i * k) - 2 * int n) * (b - a)"])
        (simp only:)
    moreover have "\<bar>realOf fraction * realOf d\<bar> < 2 ^ 52"
      using fraction d fd by simp
    ultimately show ?thesis
      unfolding w_def using js_mul_exact [of fraction d] fraction d by simp
  qed
  have v: "isFinite v \<and> realOf v = real_of_int a + f * real_of_int (b - a)"
  proof -
    have "2 * (real_of_int a + f * real_of_int (b - a))
            = 2 * real_of_int a + (2 * f) * real_of_int (b - a)"
      by (simp add: algebra_simps)
    also have "\<dots> = real_of_int (2 * a + (int (i * k) - 2 * int n) * (b - a))"
      by (simp add: f2)
    finally have "real_of_int \<lfloor>2 * (realOf (Fin (real_of_int a)) + realOf w)\<rfloor>
            = 2 * (realOf (Fin (real_of_int a)) + realOf w)"
      using w by (intro half_integerI
          [where z = "2 * a + (int (i * k) - 2 * int n) * (b - a)"]) (simp only: realOf.simps)
    moreover have "\<bar>realOf (Fin (real_of_int a)) + realOf w\<bar> < 2 ^ 52"
      using w fd ab by simp
    ultimately show ?thesis
      unfolding v_def using js_add_exact [of "Fin (real_of_int a)" w] w by simp
  qed
  have "interpolate filteredData (Fin (real k / 2)) newLength ! i = toInt16 (Math_round v)"
    using lt ea eb unfolding interpolate_nth [OF assms(1)] Let_def
      v_def w_def d_def fraction_def next_index_def index_def position_def
    by simp
  also have "\<dots> = word_of_int \<lfloor>real_of_int a + f * real_of_int (b - a) + 1 / 2\<rfloor>"
    using v by (simp add: toInt16_round)
  finally show ?thesis
    by (simp add: a_def b_def f_def n_def p_def)
qed

lemma typedArrayLength_nat: "n < 2 ^ 53 \<Longrightarrow> typedArrayLength (Fin (real_of_int (int n))) = Inr n"
proof -
  assume "n < 2 ^ 53"
  then have "int n < 2 ^ 53"
    by (metis of_nat_less_iff of_nat_numeral of_nat_power)
  then show ?thesis
    by (simp only: typedArrayLength.simps truncate_of_int) simp
qed

lemma toInt16_round_Fin: "toInt16 (Math_round (Fin y)) = word_of_int \<lfloor>y + 1 / 2\<rfloor>"
  using toInt16_round [of "Fin y"] by simp

lemma newLength_half_integer_ratio:
  fixes k len :: nat
  assumes "0 < k" and "k < 2 ^ 52" and "len < 2 ^ 51"
  shows "typedArrayLength (Math_floor (js_div (Fin (real len)) (Fin (real k / 2))))
           = Inr (2 * len div k)"
proof (cases "len = 0")
  case True
  then show ?thesis
    using assms(1) by (simp add: js_div_def zero_def truncate_def)
next
  case False
  then have "0 < 2 * len" and "2 * len < 2 ^ 52"
    using assms(3) by simp_all
  from binary64_floor_quotient [OF this(1) assms(1) this(2) assms(2)]
  obtain r where r: "binary64 (real (2 * len) / real k) = Fin r"
    and fl: "\<lfloor>r\<rfloor> = int (2 * len div k)"
    by blast
  have eq: "real len / (real k / 2) = real (2 * len) / real k"
    by simp
  have "js_div (Fin (real len)) (Fin (real k / 2)) = binary64 (real len / (real k / 2))"
    using False assms(1) by (simp add: js_div_def)
  then have "js_div (Fin (real len)) (Fin (real k / 2)) = Fin r"
    by (simp only: eq r)
  moreover have "2 * len div k < 2 ^ 53"
  proof -
    have "2 * len div k \<le> 2 * len"
      by (rule div_le_dividend)
    moreover have "(2::nat) ^ 52 \<le> 2 ^ 53"
      by simp
    ultimately show ?thesis
      using \<open>2 * len < 2 ^ 52\<close> by linarith
  qed
  ultimately show ?thesis
    using fl typedArrayLength_nat [of "2 * len div k"] by simp
qed

lemma index_in_range:
  fixes k len i :: nat
  assumes "2 < k" and "i < 2 * len div k"
  shows "nat \<lfloor>real i * (real k / 2)\<rfloor> + 1 < len"
proof -
  have "Suc i \<le> 2 * len div k"
    using assms(2) by simp
  then have "Suc i * k \<le> 2 * len"
    using assms(1) by (simp add: less_eq_div_iff_mult_less_eq)
  then have "real (Suc i * k) \<le> real (2 * len)"
    by (simp only: of_nat_le_iff)
  then have "real i * real k + real k \<le> 2 * real len"
    by (simp add: algebra_simps)
  moreover have "3 \<le> real k"
    using assms(1) by simp
  ultimately have "real i * (real k / 2) \<le> real len - 3 / 2"
    by (simp add: field_simps)
  moreover have "real_of_int \<lfloor>real i * (real k / 2)\<rfloor> \<le> real i * (real k / 2)"
    by (rule of_int_floor_le)
  ultimately have "real_of_int (\<lfloor>real i * (real k / 2)\<rfloor> + 1) < real_of_int (int len)"
    by simp
  then have "\<lfloor>real i * (real k / 2)\<rfloor> + 1 < int len"
    by (simp only: of_int_less_iff)
  moreover have "0 \<le> \<lfloor>real i * (real k / 2)\<rfloor>"
    by simp
  ultimately show ?thesis
    by linarith
qed

text \<open>
  Claim C4, amended. For rates \<open>0 < R_out < R_in\<close> whose ratio is a multiple of 1/2
  (the pipeline's 24000 and 16000 among them) and buffers of fewer than \<open>2\<^sup>5\<^sup>1\<close>
  samples, every binary64 operation of the resampling loop is exact:
  \<^verbatim>\<open>downsampleAudio\<close> returns a buffer of length \<open>\<lfloor>len / (R_in / R_out)\<rfloor>\<close>, and every
  output sample \<open>i\<close> is the linear interpolation, at \<open>p = i \<cdot> R_in / R_out\<close>, between the
  filtered samples at \<open>\<lfloor>p\<rfloor>\<close> and \<open>\<lfloor>p\<rfloor> + 1\<close> with weight \<open>p - \<lfloor>p\<rfloor>\<close>, rounded by
  \<^verbatim>\<open>Math.round\<close>; both indices lie inside the filtered data.
\<close>

theorem downsample_interpolates:
  assumes "0 < outputSampleRate" and "outputSampleRate < inputSampleRate"
    and "2 * (inputSampleRate / outputSampleRate) \<in> \<int>"
    and "inputSampleRate / outputSampleRate < 2 ^ 51"
    and "length audioData < 2 ^ 51"
  shows "\<exists>result. downsampleAudio h audioData inputSampleRate outputSampleRate = Inr result
     \<and> int (length result)
         = \<lfloor>real (length audioData) / (inputSampleRate / outputSampleRate)\<rfloor>
     \<and> (\<forall>i<length result.
          nat \<lfloor>real i * (inputSampleRate / outputSampleRate)\<rfloor> + 1 < length audioData
          \<and> result ! i =
              toInt16 (Math_round (Fin
                (real_of_int (sint
                   (applyLowPassFilter h audioData
                      (js_mul (Fin outputSampleRate) (lit 0.45)) (Fin inputSampleRate)
                      ! nat \<lfloor>real i * (inputSampleRate / outputSampleRate)\<rfloor>))
                 + (real i * (inputSampleRate / outputSampleRate)
                     - real_of_int \<lfloor>real i * (inputSampleRate / outputSampleRate)\<rfloor>)
                   * (real_of_int (sint
                        (applyLowPassFilter h audioData
                           (js_mul (Fin outputSampleRate) (lit 0.45)) (Fin inputSampleRate)
                           ! (nat \<lfloor>real i * (inputSampleRate / outputSampleRate)\<rfloor> + 1)))
                      - real_of_int (sint
                        (applyLowPassFilter h audioData
                           (js_mul (Fin outputSampleRate) (lit 0.45)) (Fin inputSampleRate)
                           ! nat \<lfloor>real i * (inputSampleRate / outputSampleRate)\<rfloor>)))))))"
proof -
  define ratio where "ratio = inputSampleRate / outputSampleRate"
  define len where "len = length audioData"
  define filtered where "filtered =
     applyLowPassFilter h audioData
       (js_mul (Fin outputSampleRate) (lit 0.45)) (Fin inputSampleRate)"
  from assms(3) obtain z where z: "2 * ratio = real_of_int z"
    unfolding ratio_def by (rule Ints_cases)
  define k where "k = nat z"
  have ratio1: "1 < ratio"
    using assms(1,2) by (simp add: ratio_def)
  then have "2 < real_of_int z"
    using z by linarith
  then have z2: "2 < z"
    by linarith
  then have k2: "2 < k"
    by (simp add: k_def)
  have "real k = real_of_int z"
    using z2 by (simp add: k_def)
  then have ratio: "ratio = real k / 2"
    using z by linarith
  have ratio51: "ratio < 2 ^ 51"
    using assms(4) by (simp add: ratio_def)
  then have "real k < 2 ^ 52"
    using ratio by simp
  then have k52: "k < 2 ^ 52"
    by (metis of_nat_less_iff of_nat_numeral of_nat_power)
  have len51: "len < 2 ^ 51"
    using assms(5) by (simp add: len_def)
  define n where "n = 2 * len div k"
  define result where "result = interpolate filtered (Fin ratio) n"
  have "of_int \<lfloor>2 * ratio\<rfloor> = 2 * ratio"
    using z by simp
  moreover have "\<bar>ratio\<bar> < 2 ^ 52"
    using ratio1 ratio51 by simp
  ultimately have "binary64 ratio = Fin ratio"
    by (rule binary64_exact)
  then have r: "js_div (Fin inputSampleRate) (Fin outputSampleRate) = Fin ratio"
    using assms(1,2) by (simp add: js_div_def ratio_def)
  have "typedArrayLength (Math_floor (js_div (Fin (real len)) (Fin ratio))) = Inr n"
    unfolding ratio n_def using k2 k52 len51 by (intro newLength_half_integer_ratio) simp_all
  then have d: "downsampleAudio h audioData inputSampleRate outputSampleRate = Inr result"
    using assms(1,2) r
    by (simp add: downsampleAudio_def Let_def result_def filtered_def len_def)
  have length: "length result = n"
    by (simp add: result_def interpolate_length)
  have "real len / ratio = real (2 * len) / real k"
    by (simp add: ratio)
  then have "\<lfloor>real len / ratio\<rfloor> = int n"
    by (simp only: n_def floor_divide_of_nat_eq)
  then have l: "int (length result) = \<lfloor>real len / ratio\<rfloor>"
    using length by simp
  have s: "nat \<lfloor>real i * ratio\<rfloor> + 1 < len
     \<and> result ! i =
          toInt16 (Math_round (Fin
            (real_of_int (sint (filtered ! nat \<lfloor>real i * ratio\<rfloor>))
             + (real i * ratio - real_of_int \<lfloor>real i * ratio\<rfloor>)
               * (real_of_int (sint (filtered ! (nat \<lfloor>real i * ratio\<rfloor> + 1)))
                  - real_of_int (sint (filtered ! nat \<lfloor>real i * ratio\<rfloor>))))))"
    if "i < length result" for i
  proof -
    have i: "i < n"
      using that length by simp
    then have range: "nat \<lfloor>real i * (real k / 2)\<rfloor> + 1 < len"
      unfolding n_def using k2 by (intro index_in_range)
    have lf: "length filtered = len"
      by (simp add: filtered_def len_def applyLowPassFilter_length)
    have "nat \<lfloor>real i * (real k / 2)\<rfloor> + 1 < length filtered"
      and "length filtered < 2 ^ 51"
      using range len51 by (simp_all only: lf)
    from interpolate_exact [OF i this]
    show ?thesis
      unfolding result_def ratio toInt16_round_Fin using range by (intro conjI)
  qed
  show ?thesis
    using d l s unfolding ratio_def len_def filtered_def by blast
qed

theorem downsample_interpolates_witness:
  "(0::real) < 16000 \<and> (16000::real) < 24000 \<and> 2 * (24000 / 16000 :: real) \<in> \<int>
   \<and> (24000 / 16000 :: real) < 2 ^ 51 \<and> length [1, 2, 3 :: int16] < 2 ^ 51
   \<and> (\<exists>result. downsampleAudio exactMath [1, 2, 3] 24000 16000 = Inr result
         \<and> length result = 2
         \<and> result ! 1 =
             toInt16 (Math_round (Fin
               (real_of_int (sint
                  (applyLowPassFilter exactMath [1, 2, 3]
                     (js_mul (Fin 16000) (lit 0.45)) (Fin 24000) ! 1))
                + 1 / 2
                  * (real_of_int (sint
                       (applyLowPassFilter exactMath [1, 2, 3]
                          (js_mul (Fin 16000) (lit 0.45)) (Fin 24000) ! 2))
                     - real_of_int (sint
                       (applyLowPassFilter exactMath [1, 2, 3]
                          (js_mul (Fin 16000) (lit 0.45)) (Fin 24000) ! 1)))))))"
proof -
  let ?f = "applyLowPassFilter exactMath [1, 2, 3] (js_mul (Fin 16000) (lit 0.45)) (Fin 24000)"
  have h1: "(0::real) < 16000" and h2: "(16000::real) < 24000"
    and h3: "2 * (24000 / 16000 :: real) \<in> \<int>" and h4: "(24000 / 16000 :: real) < 2 ^ 51"
    and h5: "length [1, 2, 3 :: int16] < 2 ^ 51"
    by simp_all
  from downsample_interpolates [OF h1 h2 h3 h4 h5, of exactMath]
  obtain result where r: "downsampleAudio exactMath [1, 2, 3] 24000 16000 = Inr result"
    and len: "int (length result) = \<lfloor>real (length [1, 2, 3 :: int16]) / (24000 / 16000)\<rfloor>"
    and smp: "\<forall>i<length result.
          nat \<lfloor>real i * (24000 / 16000)\<rfloor> + 1 < length [1, 2, 3 :: int16]
          \<and> result ! i =
              toInt16 (Math_round (Fin
                (real_of_int (sint (?f ! nat \<lfloor>real i * (24000 / 16000)\<rfloor>))
                 + (real i * (24000 / 16000) - real_of_int \<lfloor>real i * (24000 / 16000)\<rfloor>)
                   * (real_of_int (sint (?f ! (nat \<lfloor>real i * (24000 / 16000)\<rfloor> + 1)))
                      - real_of_int (sint (?f ! nat \<lfloor>real i * (24000 / 16000)\<rfloor>))))))"
    by blast
  have l2: "length result = 2"
    using len by simp
  then have "(1::nat) < length result"
    by simp
  with smp have "result ! 1 =
      toInt16 (Math_round (Fin
        (real_of_int (sint (?f ! nat \<lfloor>real 1 * (24000 / 16000)\<rfloor>))
         + (real 1 * (24000 / 16000) - real_of_int \<lfloor>real 1 * (24000 / 16000)\<rfloor>)
           * (real_of_int (sint (?f ! (nat \<lfloor>real 1 * (24000 / 16000)\<rfloor> + 1)))
              - real_of_int (sint (?f ! nat \<lfloor>real 1 * (24000 / 16000)\<rfloor>))))))"
    by blast
  moreover have "\<lfloor>real 1 * (24000 / 16000)\<rfloor> = (1::int)"
    by simp
  moreover have "real 1 * (24000 / 16000) - real_of_int 1 = 1 / 2"
    by simp
  ultimately have "result ! 1 =
      toInt16 (Math_round (Fin
        (real_of_int (sint (?f ! 1))
         + 1 / 2 * (real_of_int (sint (?f ! 2)) - real_of_int (sint (?f ! 1))))))"
    by (simp add: numeral_2_eq_2)
  then show ?thesis
    using r l2 by simp
qed

text \<open>
  For 480 samples from 48000 to 44100 the quotient \<open>480 / (48000 / 44100)\<close> is 441, but
  the ratio is rounded to binary64 and so is the quotient, which comes out just below
  441: the result has 440 samples.
\<close>

theorem downsample_length_counterexample:
  "map_sum id length (downsampleAudio exactMath (replicate 480 0) 48000 44100) = Inr 440
   \<and> \<lfloor>real (length (replicate 480 (0::int16))) / (48000 / 44100)\<rfloor> = (441::int)"
proof -
  have ratio: "js_div (Fin 48000) (Fin 44100) = Fin (4901877145437275 / 4503599627370496)"
  proof -
    have "binary64 (48000 / 44100) = Fin (4901877145437275 / 4503599627370496)"
      by (rule binary64_eval [where e = 0]) (simp_all add: roundHalfEven_def power_int_minus)
    then show ?thesis
      by (simp add: js_div_def)
  qed
  have "binary64 (480 / (4901877145437275 / 4503599627370496))
          = Fin (7758154045587455 / 17592186044416)"
    by (rule binary64_eval [where e = 8]) (simp_all add: roundHalfEven_def power_int_minus)
  then have "js_div (Fin 480) (Fin (4901877145437275 / 4503599627370496))
          = Fin (7758154045587455 / 17592186044416)"
    by (simp add: js_div_def)
  moreover have "\<lfloor>7758154045587455 / 17592186044416 :: real\<rfloor> = 440"
    by simp
  ultimately have "typedArrayLength
      (Math_floor (js_div (Fin 480) (Fin (4901877145437275 / 4503599627370496)))) = Inr 440"
    using typedArrayLength_nat [of 440] by simp
  then have "map_sum id length (downsampleAudio exactMath (replicate 480 0) 48000 44100)
               = Inr 440"
    using ratio by (simp add: downsampleAudio_def Let_def interpolate_length)
  then show ?thesis
    by simp
qed

subsection \<open>The normalization of the kernel\<close>

lemma foldl_js_add_finite: "isFinite (foldl js_add a cs) \<Longrightarrow> isFinite a"
proof (induction cs arbitrary: a)
  case Nil
  then show ?case by simp
next
  case (Cons c cs)
  then have "isFinite (js_add a c)"
    by simp
  then show ?case
    using js_add_not_finite by blast
qed

text \<open>The sum that \<^verbatim>\<open>reduce\<close> accumulates, against the exact sum of the same values.\<close>

lemma foldl_js_add_error:
  assumes "\<forall>c\<in>set cs. isFinite c" and "isFinite (foldl js_add a cs)"
  shows "\<bar>realOf (foldl js_add a cs) - (realOf a + (\<Sum>c\<leftarrow>cs. realOf c))\<bar>
           \<le> ((1 + 2 powi (- 53)) ^ length cs - 1)
               * (\<bar>realOf a\<bar> + (\<Sum>c\<leftarrow>cs. \<bar>realOf c\<bar>) + 2 powi (- 1022))"
  using assms
proof (induction cs arbitrary: a)
  case Nil
  then show ?case by simp
next
  case (Cons c cs)
  define u :: real where "u = 2 powi (- 53)"
  define G :: real where "G = 2 powi (- 1022)"
  define P where "P = (1 + u) ^ length cs"
  define A where "A = (\<Sum>c\<leftarrow>cs. \<bar>realOf c\<bar>)"
  define S where "S = (\<Sum>c\<leftarrow>cs. realOf c)"
  define a' where "a' = js_add a c"
  define M where "M = \<bar>realOf a\<bar> + \<bar>realOf c\<bar>"
  define t where "t = realOf (foldl js_add a' cs)"
  have u: "0 < u" and G: "0 < G"
    by (simp_all add: u_def G_def)
  have uG: "u * G = 2 powi (- 1075)"
    unfolding u_def G_def using power_int_add [of "2::real" "- 53" "- 1022"] by simp
  have P: "1 \<le> P"
    unfolding P_def using u by (intro one_le_power) simp
  have A: "0 \<le> A"
    unfolding A_def by (intro sum_list_nonneg) auto
  have fin: "isFinite (foldl js_add a' cs)"
    using Cons.prems(2) by (simp add: a'_def)
  then have a': "isFinite a'"
    by (rule foldl_js_add_finite)
  then have a: "isFinite a"
    unfolding a'_def using js_add_not_finite by blast
  have c: "isFinite c" and cs: "\<forall>c\<in>set cs. isFinite c"
    using Cons.prems(1) by simp_all
  have "\<bar>realOf a' - (realOf a + realOf c)\<bar>
          \<le> \<bar>realOf a + realOf c\<bar> * 2 powi (- 53) + 2 powi (- 1075)"
    unfolding a'_def using a c a' [unfolded a'_def] by (rule js_add_error)
  moreover have "\<bar>realOf a + realOf c\<bar> \<le> M"
    unfolding M_def by linarith
  then have "\<bar>realOf a + realOf c\<bar> * u \<le> M * u"
    using u by (intro mult_right_mono) simp_all
  ultimately have d: "\<bar>realOf a' - (realOf a + realOf c)\<bar> \<le> u * M + u * G"
    unfolding uG u_def [symmetric] by (simp add: mult.commute)
  have "\<bar>realOf a'\<bar> \<le> \<bar>realOf a + realOf c\<bar> + \<bar>realOf a' - (realOf a + realOf c)\<bar>"
    by linarith
  then have "\<bar>realOf a'\<bar> \<le> M + (u * M + u * G)"
    using d \<open>\<bar>realOf a + realOf c\<bar> \<le> M\<close> by linarith
  moreover have "0 \<le> A * u"
    using u A by simp
  moreover have "(1 + u) * (M + A + G) = M + A + G + (u * M + A * u + u * G)"
    by (simp add: algebra_simps)
  ultimately have "\<bar>realOf a'\<bar> + A + G \<le> (1 + u) * (M + A + G)"
    by linarith
  then have "(P - 1) * (\<bar>realOf a'\<bar> + A + G) \<le> (P - 1) * ((1 + u) * (M + A + G))"
    using P by (intro mult_left_mono) simp_all
  moreover have "\<bar>t - (realOf a' + S)\<bar> \<le> (P - 1) * (\<bar>realOf a'\<bar> + A + G)"
    unfolding t_def S_def P_def A_def u_def G_def using cs fin by (rule Cons.IH)
  ultimately have "\<bar>t - (realOf a' + S)\<bar> \<le> (P - 1) * ((1 + u) * (M + A + G))"
    by linarith
  moreover have "u * M + u * G \<le> u * (M + A + G)"
  proof -
    have "0 \<le> u * A"
      using u A by simp
    then show ?thesis
      by (simp add: algebra_simps)
  qed
  moreover have "\<bar>t - (realOf a + (realOf c + S))\<bar>
                   \<le> \<bar>t - (realOf a' + S)\<bar> + \<bar>realOf a' - (realOf a + realOf c)\<bar>"
    by linarith
  ultimately have "\<bar>t - (realOf a + (realOf c + S))\<bar>
                     \<le> (P - 1) * ((1 + u) * (M + A + G)) + u * (M + A + G)"
    using d by linarith
  also have "\<dots> = ((1 + u) * P - 1) * (M + A + G)"
    by (simp add: algebra_simps)
  finally show ?case
    by (simp add: t_def a'_def S_def A_def M_def P_def u_def G_def algebra_simps)
qed

lemma power_one_plus_bound:
  fixes u :: real
  assumes "0 \<le> u" and "2 * real n * u \<le> 1"
  shows "(1 + u) ^ n \<le> 1 + 2 * real n * u"
  using assms(2)
proof (induction n)
  case 0
  then show ?case by simp
next
  case (Suc n)
  have "2 * real n * u \<le> 2 * real (Suc n) * u"
    using assms(1) by (simp add: algebra_simps)
  then have n: "2 * real n * u \<le> 1"
    using Suc.prems by linarith
  then have "(1 + u) ^ n \<le> 1 + 2 * real n * u"
    by (rule Suc.IH)
  then have "(1 + u) * (1 + u) ^ n \<le> (1 + u) * (1 + 2 * real n * u)"
    using assms(1) by (intro mult_left_mono) simp_all
  moreover have "(2 * real n * u) * u \<le> 1 * u"
    using n assms(1) by (intro mult_right_mono)
  ultimately show ?case
    by (simp add: algebra_simps)
qed

lemma sum_list_error:
  fixes f g :: "'a \<Rightarrow> real"
  assumes "\<forall>c\<in>set cs. \<bar>f c - g c\<bar> \<le> a * \<bar>g c\<bar> + b"
  shows "\<bar>(\<Sum>c\<leftarrow>cs. f c) - (\<Sum>c\<leftarrow>cs. g c)\<bar>
           \<le> a * (\<Sum>c\<leftarrow>cs. \<bar>g c\<bar>) + real (length cs) * b"
  using assms
proof (induction cs)
  case Nil
  then show ?case by simp
next
  case (Cons c cs)
  then have "\<bar>f c - g c\<bar> \<le> a * \<bar>g c\<bar> + b"
    and "\<bar>(\<Sum>c\<leftarrow>cs. f c) - (\<Sum>c\<leftarrow>cs. g c)\<bar>
           \<le> a * (\<Sum>c\<leftarrow>cs. \<bar>g c\<bar>) + real (length cs) * b"
    by simp_all
  then show ?case
    by (simp add: algebra_simps)
qed

lemma normalize_element_error:
  assumes "isFinite c" and "isFinite s" and "realOf s \<noteq> 0"
    and "isFinite (fround (js_div c s))"
  shows "\<bar>realOf (fround (js_div c s)) - realOf c / realOf s\<bar>
           \<le> (1 / 2 ^ 24 + 1 / 2 ^ 52) * \<bar>realOf c / realOf s\<bar> + 1 / 2 ^ 149"
proof -
  define x where "x = realOf c / realOf s"
  define q where "q = realOf (js_div c s)"
  define r where "r = realOf (fround (js_div c s))"
  have "isFinite (js_div c s)"
    using assms(4) by (rule fround_finite)
  then have "\<bar>q - x\<bar> \<le> \<bar>x\<bar> * 2 powi (- 53) + 2 powi (- 1075)"
    unfolding q_def x_def using assms(1-3) by (intro js_div_error)
  moreover have "(2::real) powi (- 1075) \<le> 2 powi (- 151)"
    by (intro power_int_increasing) simp_all
  ultimately have e1: "\<bar>q - x\<bar> \<le> \<bar>x\<bar> / 2 ^ 53 + 1 / 2 ^ 151"
    by (simp add: power_int_minus field_simps)
  have "\<bar>r - q\<bar> \<le> \<bar>q\<bar> * 2 powi (- 24) + 2 powi (- 150)"
    unfolding r_def q_def using assms(4) by (rule fround_error)
  then have e2: "\<bar>r - q\<bar> \<le> \<bar>q\<bar> / 2 ^ 24 + 1 / 2 ^ 150"
    by (simp add: power_int_minus field_simps)
  have "\<bar>q\<bar> \<le> \<bar>x\<bar> + (\<bar>x\<bar> / 2 ^ 53 + 1 / 2 ^ 151)"
    using e1 by linarith
  then have "\<bar>q\<bar> / 2 ^ 24 \<le> (\<bar>x\<bar> + (\<bar>x\<bar> / 2 ^ 53 + 1 / 2 ^ 151)) / 2 ^ 24"
    by (intro divide_right_mono) simp_all
  moreover have "\<bar>r - x\<bar> \<le> \<bar>r - q\<bar> + \<bar>q - x\<bar>"
    by linarith
  moreover have "0 \<le> \<bar>x\<bar>"
    by simp
  ultimately have "\<bar>r - x\<bar> \<le> (1 / 2 ^ 24 + 1 / 2 ^ 52) * \<bar>x\<bar> + 1 / 2 ^ 149"
    using e1 e2 by (simp add: field_simps) argo
  then show ?thesis
    by (simp only: r_def x_def)
qed

lemma normalize_sum:
  assumes "length coefficients = numberOfTaps"
    and "\<forall>c\<in>set coefficients. isFinite c"
    and "1 / 2 ^ 126 \<le> \<bar>realOf (foldl js_add (Fin 0) coefficients)\<bar>"
    and "\<forall>c\<in>set (normalize coefficients). isFinite c"
  shows "\<bar>(\<Sum>c\<leftarrow>normalize coefficients. realOf c) - 1\<bar>
           \<le> (\<Sum>c\<leftarrow>coefficients. \<bar>realOf c\<bar>)
                 / \<bar>realOf (foldl js_add (Fin 0) coefficients)\<bar> / 2 ^ 23
               + 1 / 2 ^ 144"
proof -
  define s where "s = foldl js_add (Fin 0) coefficients"
  define rs where "rs = realOf s"
  define A where "A = (\<Sum>c\<leftarrow>coefficients. \<bar>realOf c\<bar>)"
  define S where "S = (\<Sum>c\<leftarrow>coefficients. realOf c)"
  define T where "T = (\<Sum>c\<leftarrow>coefficients. realOf (fround (js_div c s)))"
  define \<kappa> where "\<kappa> = A / \<bar>rs\<bar>"
  have rs: "1 / 2 ^ 126 \<le> \<bar>rs\<bar>"
    using assms(3) by (simp add: rs_def s_def)
  then have rs0: "0 < \<bar>rs\<bar>"
    by (rule less_le_trans [rotated]) simp
  then have "rs \<noteq> 0"
    by simp
  then have fin: "isFinite s"
    unfolding rs_def by (cases s) simp_all
  have A: "0 \<le> A"
    unfolding A_def by (intro sum_list_nonneg) auto
  then have \<kappa>: "0 \<le> \<kappa>"
    unfolding \<kappa>_def using rs0 by simp
  have n: "length coefficients = 31"
    using assms(1) by (simp add: numberOfTaps_def)
  define G :: real where "G = 2 powi (- 1022)"
  define P :: real where "P = (1 + 2 powi (- 53)) ^ 31"
  have G: "0 < G"
    by (simp add: G_def)
  have "\<bar>rs - (realOf (Fin 0) + S)\<bar>
          \<le> ((1 + 2 powi (- 53)) ^ length coefficients - 1)
              * (\<bar>realOf (Fin 0)\<bar> + A + 2 powi (- 1022))"
    unfolding rs_def s_def S_def A_def using assms(2) fin [unfolded s_def]
    by (rule foldl_js_add_error)
  then have e: "\<bar>rs - S\<bar> \<le> (P - 1) * (A + G)"
    by (simp add: n P_def G_def)
  have "P \<le> 1 + 2 * real 31 * 2 powi (- 53)"
    unfolding P_def by (rule power_one_plus_bound) (simp_all add: power_int_minus)
  moreover have "2 * real 31 * 2 powi (- 53) \<le> (1::real) / 2 ^ 47"
    by (simp add: power_int_minus)
  ultimately have "P - 1 \<le> 1 / 2 ^ 47"
    by linarith
  moreover have "0 \<le> A + G"
    using A G by simp
  ultimately have "(P - 1) * (A + G) \<le> 1 / 2 ^ 47 * (A + G)"
    by (rule mult_right_mono)
  then have e': "\<bar>rs - S\<bar> \<le> (A + G) / 2 ^ 47"
    using e by simp
  have "\<bar>S / rs - 1\<bar> = \<bar>rs - S\<bar> / \<bar>rs\<bar>"
  proof -
    have "S / rs - 1 = (S - rs) / rs"
      using \<open>rs \<noteq> 0\<close> by (simp add: field_simps)
    then show ?thesis
      by (simp add: abs_minus_commute)
  qed
  also have "\<dots> \<le> ((A + G) / 2 ^ 47) / \<bar>rs\<bar>"
    using e' rs0 by (intro divide_right_mono) simp_all
  also have "\<dots> = \<kappa> / 2 ^ 47 + G / \<bar>rs\<bar> / 2 ^ 47"
    by (simp add: \<kappa>_def add_divide_distrib)
  finally have first: "\<bar>S / rs - 1\<bar> \<le> \<kappa> / 2 ^ 47 + G / \<bar>rs\<bar> / 2 ^ 47" .
  have "G / \<bar>rs\<bar> \<le> G / (1 / 2 ^ 126)"
    using rs G by (intro divide_left_mono) simp_all
  also have "\<dots> = 2 powi (- 1022) * 2 powi 126"
    by (simp add: G_def)
  also have "\<dots> = 2 powi (- 896)"
    using power_int_add [of "2::real" "- 1022" 126] by simp
  also have "\<dots> \<le> 2 powi (- 103)"
    by (intro power_int_increasing) simp_all
  finally have "G / \<bar>rs\<bar> \<le> 1 / 2 ^ 103"
    by (simp add: power_int_minus)
  then have "G / \<bar>rs\<bar> / 2 ^ 47 \<le> 1 / 2 ^ 103 / 2 ^ 47"
    by (intro divide_right_mono) simp_all
  then have first': "\<bar>S / rs - 1\<bar> \<le> \<kappa> / 2 ^ 47 + 1 / 2 ^ 150"
    using first by simp
  have "\<forall>c\<in>set coefficients.
          \<bar>realOf (fround (js_div c s)) - realOf c / rs\<bar>
            \<le> (1 / 2 ^ 24 + 1 / 2 ^ 52) * \<bar>realOf c / rs\<bar> + 1 / 2 ^ 149"
  proof
    fix c
    assume c: "c \<in> set coefficients"
    then have "fround (js_div c s) \<in> set (normalize coefficients)"
      by (simp add: normalize_def s_def)
    then have "isFinite (fround (js_div c s))"
      using assms(4) by blast
    moreover have "isFinite c"
      using assms(2) c by blast
    ultimately show "\<bar>realOf (fround (js_div c s)) - realOf c / rs\<bar>
            \<le> (1 / 2 ^ 24 + 1 / 2 ^ 52) * \<bar>realOf c / rs\<bar> + 1 / 2 ^ 149"
      unfolding rs_def using fin \<open>rs \<noteq> 0\<close> [unfolded rs_def]
      by (intro normalize_element_error)
  qed
  then have "\<bar>T - (\<Sum>c\<leftarrow>coefficients. realOf c / rs)\<bar>
               \<le> (1 / 2 ^ 24 + 1 / 2 ^ 52) * (\<Sum>c\<leftarrow>coefficients. \<bar>realOf c / rs\<bar>)
                   + real (length coefficients) * (1 / 2 ^ 149)"
    unfolding T_def by (rule sum_list_error)
  moreover have "(\<Sum>c\<leftarrow>coefficients. realOf c / rs) = S / rs"
    unfolding S_def by (induction coefficients) (simp_all add: add_divide_distrib)
  moreover have "(\<Sum>c\<leftarrow>coefficients. \<bar>realOf c / rs\<bar>) = \<kappa>"
    unfolding \<kappa>_def A_def by (induction coefficients) (simp_all add: add_divide_distrib)
  ultimately have second: "\<bar>T - S / rs\<bar> \<le> (1 / 2 ^ 24 + 1 / 2 ^ 52) * \<kappa> + 31 / 2 ^ 149"
    by (simp add: n)
  have "\<bar>T - 1\<bar> \<le> \<bar>T - S / rs\<bar> + \<bar>S / rs - 1\<bar>"
    by linarith
  then have "\<bar>T - 1\<bar> \<le> \<kappa> / 2 ^ 23 + 1 / 2 ^ 144"
    using first' second \<kappa> by (simp add: field_simps)
  moreover have "(\<Sum>c\<leftarrow>normalize coefficients. realOf c) = T"
    by (simp add: normalize_def T_def s_def comp_def)
  ultimately show ?thesis
    by (simp add: \<kappa>_def A_def rs_def s_def)
qed








text \<open>
  The same bound read for the kernel of \<^verbatim>\<open>applyLowPassFilter\<close>, which is the
  normalization of the 31 stored values of the windowed sinc.
\<close>

lemma sincCoefficients_length: "length (sincCoefficients h fc) = numberOfTaps"
  by (simp add: sincCoefficients_def for_loop_fill_length)

lemma sincCoefficients_nth:
  "i < numberOfTaps \<Longrightarrow> sincCoefficients h fc ! i = windowedSinc h fc i"
  by (simp add: sincCoefficients_def for_loop_fill_nth)

lemma lowPassCoefficients_sum:
  assumes "list_all isFinite (sincCoefficients h (js_div cutoffFreq sampleRate))"
    and "1 / 2 ^ 126
           \<le> \<bar>realOf (foldl js_add (Fin 0) (sincCoefficients h (js_div cutoffFreq sampleRate)))\<bar>"
    and "list_all isFinite (lowPassCoefficients h cutoffFreq sampleRate)"
  shows "\<bar>(\<Sum>c\<leftarrow>lowPassCoefficients h cutoffFreq sampleRate. realOf c) - 1\<bar>
           \<le> (\<Sum>c\<leftarrow>sincCoefficients h (js_div cutoffFreq sampleRate). \<bar>realOf c\<bar>)
                 / \<bar>realOf (foldl js_add (Fin 0)
                      (sincCoefficients h (js_div cutoffFreq sampleRate)))\<bar> / 2 ^ 23
               + 1 / 2 ^ 144"
  unfolding lowPassCoefficients_def using assms
  by (intro normalize_sum) (simp_all add: list_all_iff sincCoefficients_length lowPassCoefficients_def)

text \<open>Zeros: products and quotients of a zero, and what is stored for it.\<close>

lemma js_mul_zero_left: "isZero a \<Longrightarrow> isFinite b \<Longrightarrow> isZero (js_mul a b)"
  by (cases a; cases b; simp add: js_mul_def zero_def)

lemma js_mul_zero_right: "isFinite a \<Longrightarrow> isZero b \<Longrightarrow> isZero (js_mul a b)"
  by (cases a; cases b; simp add: js_mul_def zero_def)

lemma js_div_zero: "isZero a \<Longrightarrow> isFinite b \<Longrightarrow> \<not> isZero b \<Longrightarrow> isZero (js_div a b)"
  by (cases a; cases b; simp add: js_div_def zero_def)

lemma js_div_zero_zero: "isZero a \<Longrightarrow> js_div a (Fin 0) = NaN"
  by (cases a; simp add: js_div_def)

lemma Math_sin_zero: "isZero a \<Longrightarrow> isZero (Math_sin h a)"
  by (cases a) simp_all

lemma fround_zero: "isZero a \<Longrightarrow> isZero (fround a)"
  by (cases a) (simp_all add: binary32_def roundTo_def)

lemma js_add_zero: "isZero b \<Longrightarrow> js_add (Fin 0) b = Fin 0"
  by (cases b; simp add: js_add_def)

lemma foldl_js_add_zeros: "list_all isZero cs \<Longrightarrow> foldl js_add (Fin 0) cs = Fin 0"
  by (induction cs) (simp_all add: js_add_zero)

lemma normalize_zeros:
  assumes "list_all isZero cs"
  shows "normalize cs = replicate (length cs) NaN"
proof -
  have "map (\<lambda>c. fround (js_div c (Fin 0))) cs = map (\<lambda>c. NaN) cs"
    using assms by (intro map_cong refl) (simp add: list_all_iff js_div_zero_zero)
  then show ?thesis
    using assms by (simp add: normalize_def foldl_js_add_zeros map_replicate_const)
qed

text \<open>The window of the exact host is finite at every tap.\<close>

lemma two_pi_bound:
  "isFinite (js_mul (Fin 2) Math_PI) \<and> \<bar>realOf (js_mul (Fin 2) Math_PI)\<bar> \<le> 2 ^ 3"
  by (rule js_mul_bound) (simp_all add: Math_PI_def)

lemma lit_bound: "\<bar>x\<bar> \<le> 1 \<Longrightarrow> isFinite (lit x) \<and> \<bar>realOf (lit x)\<bar> \<le> 1"
  unfolding lit_def using binary64_bound [of x 0] by simp

lemma Math_cos_exact_bound:
  assumes "isFinite a"
  shows "isFinite (Math_cos exactMath a) \<and> \<bar>realOf (Math_cos exactMath a)\<bar> \<le> 1"
proof (cases a)
  case (Fin x)
  have "\<bar>cos x\<bar> \<le> 2 ^ 0"
    by simp
  then have "isFinite (binary64 (cos x)) \<and> \<bar>realOf (binary64 (cos x))\<bar> \<le> 2 ^ 0"
    by (rule binary64_bound) simp
  then show ?thesis
    using Fin by (simp add: exactMath_def)
qed (use assms in simp_all)

lemma hammingWindow_finite:
  assumes "i \<le> 32"
  shows "isFinite (hammingWindow exactMath i)"
proof -
  define X where "X = js_mul (Fin 2) Math_PI"
  define Y where "Y = js_mul X (Fin (real i))"
  define \<theta> where "\<theta> = js_div Y (Fin (real (numberOfTaps - 1)))"
  define c where "c = Math_cos exactMath \<theta>"
  define m where "m = js_mul (lit 0.46) c"
  have X: "isFinite X \<and> \<bar>realOf X\<bar> \<le> 2 ^ 3"
    unfolding X_def by (rule two_pi_bound)
  have "real i \<le> 2 ^ 5"
    using assms by simp
  then have "\<bar>realOf X\<bar> * real i \<le> 2 ^ 3 * 2 ^ 5"
    using X by (intro mult_mono) simp_all
  then have "\<bar>realOf X * realOf (Fin (real i))\<bar> \<le> 2 ^ 8"
    by (simp add: abs_mult)
  then have Y: "isFinite Y \<and> \<bar>realOf Y\<bar> \<le> 2 ^ 8"
    unfolding Y_def using X by (intro js_mul_bound) simp_all
  then have "\<bar>realOf Y\<bar> / 30 \<le> 2 ^ 8"
    by simp
  then have "isFinite \<theta>"
    unfolding \<theta>_def using Y js_div_bound [of Y "Fin (real (numberOfTaps - 1))" 8]
    by (simp add: numberOfTaps_def)
  then have c: "isFinite c \<and> \<bar>realOf c\<bar> \<le> 1"
    unfolding c_def by (rule Math_cos_exact_bound)
  have l46: "isFinite (lit 0.46) \<and> \<bar>realOf (lit 0.46)\<bar> \<le> 1"
    by (rule lit_bound) simp
  have l54: "isFinite (lit 0.54) \<and> \<bar>realOf (lit 0.54)\<bar> \<le> 1"
    by (rule lit_bound) simp
  have "\<bar>realOf (lit 0.46)\<bar> * \<bar>realOf c\<bar> \<le> 1 * 1"
    using l46 c by (intro mult_mono) simp_all
  then have "\<bar>realOf (lit 0.46) * realOf c\<bar> \<le> 2 ^ 0"
    by (simp add: abs_mult)
  then have m: "isFinite m \<and> \<bar>realOf m\<bar> \<le> 2 ^ 0"
    unfolding m_def using l46 c by (intro js_mul_bound) simp_all
  then have n: "isFinite (js_neg m) \<and> realOf (js_neg m) = - realOf m"
    using js_neg_finite by blast
  moreover have "\<bar>realOf (lit 0.54) + realOf (js_neg m)\<bar>
                   \<le> \<bar>realOf (lit 0.54)\<bar> + \<bar>realOf (js_neg m)\<bar>"
    by (rule abs_triangle_ineq)
  ultimately have "\<bar>realOf (lit 0.54) + realOf (js_neg m)\<bar> \<le> 2 ^ 1"
    using l54 m by simp
  then have "isFinite (js_add (lit 0.54) (js_neg m))"
    using l54 n js_add_bound [of "lit 0.54" "js_neg m" 1] by simp
  then show ?thesis
    by (simp add: hammingWindow_def js_sub_def m_def c_def \<theta>_def Y_def X_def)
qed

lemma windowedSinc_zero_cutoff:
  assumes "i < numberOfTaps"
  shows "isZero (windowedSinc exactMath (Fin 0) i)"
proof -
  define X where "X = js_mul (Fin 2) Math_PI"
  have X: "isFinite X"
    unfolding X_def using two_pi_bound by blast
  then have z: "isZero (js_mul X (Fin 0))"
    by (intro js_mul_zero_right) simp_all
  have w: "isFinite (hammingWindow exactMath i)"
    using assms by (intro hammingWindow_finite) (simp add: numberOfTaps_def)
  show ?thesis
  proof (cases "i = middle")
    case True
    have "isZero (fround (js_mul X (Fin 0)))"
      using z by (rule fround_zero)
    then have "isZero (js_mul (fround (js_mul X (Fin 0))) (hammingWindow exactMath i))"
      using w by (rule js_mul_zero_left)
    then have "isZero (fround (js_mul (fround (js_mul X (Fin 0))) (hammingWindow exactMath i)))"
      by (rule fround_zero)
    then show ?thesis
      using True by (simp add: windowedSinc_def X_def)
  next
    case False
    then have d: "real i - real middle \<noteq> 0"
      by simp
    have "isFinite (Fin (real i - real middle))"
      by simp
    with z have "isZero (js_mul (js_mul X (Fin 0)) (Fin (real i - real middle)))"
      by (rule js_mul_zero_left)
    then have "isZero (Math_sin exactMath (js_mul (js_mul X (Fin 0)) (Fin (real i - real middle))))"
      by (rule Math_sin_zero)
    then have "isZero (js_div
        (Math_sin exactMath (js_mul (js_mul X (Fin 0)) (Fin (real i - real middle))))
        (Fin (real i - real middle)))"
      using d by (intro js_div_zero) simp_all
    then have "isZero (fround (js_div
        (Math_sin exactMath (js_mul (js_mul X (Fin 0)) (Fin (real i - real middle))))
        (Fin (real i - real middle))))"
      by (rule fround_zero)
    then have "isZero (js_mul (fround (js_div
        (Math_sin exactMath (js_mul (js_mul X (Fin 0)) (Fin (real i - real middle))))
        (Fin (real i - real middle)))) (hammingWindow exactMath i))"
      using w by (rule js_mul_zero_left)
    then have "isZero (fround (js_mul (fround (js_div
        (Math_sin exactMath (js_mul (js_mul X (Fin 0)) (Fin (real i - real middle))))
        (Fin (real i - real middle)))) (hammingWindow exactMath i)))"
      by (rule fround_zero)
    then show ?thesis
      using False by (simp add: windowedSinc_def X_def Let_def)
  qed
qed

lemma sincCoefficients_zero_cutoff: "list_all isZero (sincCoefficients exactMath (Fin 0))"
  unfolding list_all_length
  by (simp add: sincCoefficients_length sincCoefficients_nth windowedSinc_zero_cutoff)

lemma lowPassCoefficients_zero_cutoff:
  "lowPassCoefficients exactMath (Fin 0) (Fin 24000) = replicate numberOfTaps NaN"
proof -
  have "js_div (Fin 0) (Fin 24000) = Fin 0"
    by (simp add: js_div_def zero_def)
  then show ?thesis
    using normalize_zeros [OF sincCoefficients_zero_cutoff]
    by (simp add: lowPassCoefficients_def sincCoefficients_length)
qed


subsection \<open>The rounding of the samples\<close>

lemma toInt16_round_cases:
  "toInt16 (Math_round v) = (if isFinite v then word_of_int \<lfloor>realOf v + 1 / 2\<rfloor> else 0)"
  by (cases v) (simp_all add: truncate_of_int)

text \<open>
  Claim C6, amended. Every filtered sample and every interpolated sample is the value
  that the code has computed in binary64 (with the kernel it holds in binary32),
  rounded to \<open>\<lfloor>v + 1/2\<rfloor>\<close>, the nearest integer with ties towards plus infinity, and
  stored without clamping: the stored sample is that integer modulo \<open>2\<^sup>1\<^sup>6\<close>. A value
  that is not finite is stored as 0. The branch of the interpolation loop for the last
  index copies a filtered sample.
\<close>

theorem samples_rounded_half_up:
  "(i < length data \<longrightarrow>
      applyLowPassFilter h data cutoffFreq sampleRate ! i
        = (let sum = filterSum (lowPassCoefficients h cutoffFreq sampleRate) data i
           in if isFinite sum then word_of_int \<lfloor>realOf sum + 1 / 2\<rfloor> else 0))
   \<and> (i < newLength \<longrightarrow>
      interpolate filteredData ratio newLength ! i
        = (let position = js_mul (Fin (real i)) ratio;
               index = Math_floor position;
               fraction = js_sub position index;
               a = element filteredData index;
               b = element filteredData (js_add index (Fin 1));
               v = js_add a (js_mul fraction (js_sub b a))
           in if js_lt (js_add index (Fin 1)) (Fin (real (length filteredData)))
              then (if isFinite v then word_of_int \<lfloor>realOf v + 1 / 2\<rfloor> else 0)
              else toInt16 (element filteredData index)))
   \<and> toInt16 (Math_round (Fin (real_of_int m + 1 / 2))) = word_of_int (m + 1)
   \<and> sint (toInt16 (Math_round (Fin (real_of_int n)))) = (n + 32768) mod 65536 - 32768"
proof (intro conjI impI)
  assume "i < length data"
  then show "applyLowPassFilter h data cutoffFreq sampleRate ! i
        = (let sum = filterSum (lowPassCoefficients h cutoffFreq sampleRate) data i
           in if isFinite sum then word_of_int \<lfloor>realOf sum + 1 / 2\<rfloor> else 0)"
    by (simp only: applyLowPassFilter_nth toInt16_round_cases Let_def)
next
  assume "i < newLength"
  then show "interpolate filteredData ratio newLength ! i
        = (let position = js_mul (Fin (real i)) ratio;
               index = Math_floor position;
               fraction = js_sub position index;
               a = element filteredData index;
               b = element filteredData (js_add index (Fin 1));
               v = js_add a (js_mul fraction (js_sub b a))
           in if js_lt (js_add index (Fin 1)) (Fin (real (length filteredData)))
              then (if isFinite v then word_of_int \<lfloor>realOf v + 1 / 2\<rfloor> else 0)
              else toInt16 (element filteredData index))"
    by (simp only: interpolate_nth toInt16_round_cases Let_def)
next
  have "real_of_int m + 1 / 2 + 1 / 2 = real_of_int (m + 1)"
    by simp
  then show "toInt16 (Math_round (Fin (real_of_int m + 1 / 2))) = word_of_int (m + 1)"
    by (simp only: toInt16_round_Fin floor_of_int)
next
  have "\<lfloor>real_of_int n + 1 / 2\<rfloor> = n"
    by linarith
  then have "toInt16 (Math_round (Fin (real_of_int n))) = word_of_int n"
    by (simp only: toInt16_round_Fin)
  then show "sint (toInt16 (Math_round (Fin (real_of_int n)))) = (n + 32768) mod 65536 - 32768"
    by (simp add: int_word_sint)
qed

text \<open>With a kernel of NaN the sum of every sample is NaN, and the sample is stored as 0.\<close>

lemma fold_NaN:
  "fold (\<lambda>j sum. if P j then js_add sum (f j) else sum) js NaN = NaN"
  by (induction js) (simp_all add: js_add_def)

lemma filterSum_NaN:
  assumes "i < length data"
  shows "filterSum (replicate numberOfTaps NaN) data i = NaN"
proof -
  define body where "body = (\<lambda>j sum.
     if int i - int j + int middle \<ge> 0 \<and> int i - int j + int middle < int (length data)
     then js_add sum (js_mul (replicate numberOfTaps NaN ! j)
            (Fin (real_of_int (sint (data ! nat (int i - int j + int middle))))))
     else sum)"
  have f: "filterSum (replicate numberOfTaps NaN) data i = fold body [0..<numberOfTaps] (Fin 0)"
    by (simp add: filterSum_def for_loop_fold Let_def body_def)
  have "[0..<numberOfTaps] = [0..<middle] @ middle # [Suc middle..<numberOfTaps]"
    by (simp add: numberOfTaps_def middle_def upt_conv_Cons [symmetric] upt_add_eq_append [of 0 15 16, simplified])
  moreover have "body middle s = NaN" for s
    using assms by (simp add: body_def numberOfTaps_def middle_def js_mul_def js_add_def)
  moreover have "fold body js NaN = NaN" for js
    unfolding body_def by (rule fold_NaN)
  ultimately show ?thesis
    using f by simp
qed

lemma interpolate_example: "interpolate [0, - 3, - 2] (Fin (3 / 2)) 2 ! 1 = - 2"
proof -
  have "(1::nat) < 2" and "nat \<lfloor>real 1 * (real 3 / 2)\<rfloor> + 1 < length [0, - 3, - 2 :: int16]"
    and "length [0, - 3, - 2 :: int16] < 2 ^ 51"
    by simp_all
  from interpolate_exact [OF this]
  have "interpolate [0, - 3, - 2] (Fin (real 3 / 2)) 2 ! 1 =
     word_of_int
       \<lfloor>real_of_int (sint ([0, - 3, - 2 :: int16] ! nat \<lfloor>real 1 * (real 3 / 2)\<rfloor>))
        + (real 1 * (real 3 / 2) - real_of_int \<lfloor>real 1 * (real 3 / 2)\<rfloor>)
          * (real_of_int (sint ([0, - 3, - 2 :: int16] ! (nat \<lfloor>real 1 * (real 3 / 2)\<rfloor> + 1)))
             - real_of_int (sint ([0, - 3, - 2 :: int16] ! nat \<lfloor>real 1 * (real 3 / 2)\<rfloor>)))
        + 1 / 2\<rfloor>" .
  moreover have "\<lfloor>real 1 * (real 3 / 2)\<rfloor> = 1"
    by simp
  ultimately show ?thesis
    by (simp add: numeral_2_eq_2)
qed

theorem samples_rounded_half_up_witness:
  "(1::nat) < length [5, - 7 :: int16]
   \<and> applyLowPassFilter exactMath [5, - 7] (js_mul (Fin 16000) (lit 0.45)) (Fin 24000) ! 1
       = (let sum = filterSum
                      (lowPassCoefficients exactMath (js_mul (Fin 16000) (lit 0.45)) (Fin 24000))
                      [5, - 7] 1
          in if isFinite sum then word_of_int \<lfloor>realOf sum + 1 / 2\<rfloor> else 0)
   \<and> filterSum (lowPassCoefficients exactMath (Fin 0) (Fin 24000)) [5, - 7] 1 = NaN
   \<and> applyLowPassFilter exactMath [5, - 7] (Fin 0) (Fin 24000) ! 1 = 0
   \<and> (1::nat) < 2
   \<and> interpolate [0, - 3, - 2] (Fin (3 / 2)) 2 ! 1 = - 2
   \<and> toInt16 (Math_round (Fin (real_of_int (- 3) + 1 / 2))) = - 2
   \<and> sint (toInt16 (Math_round (Fin (real_of_int 40000)))) = - 25536"
proof -
  have s: "filterSum (lowPassCoefficients exactMath (Fin 0) (Fin 24000)) [5, - 7] 1 = NaN"
    using filterSum_NaN [of 1 "[5, - 7]"] by (simp add: lowPassCoefficients_zero_cutoff)
  have "applyLowPassFilter exactMath [5, - 7] (Fin 0) (Fin 24000) ! 1 = 0"
    using samples_rounded_half_up [of 1 "[5, - 7]" exactMath "Fin 0" "Fin 24000"] s by simp
  then show ?thesis
    using samples_rounded_half_up [of 1 "[5, - 7]" exactMath "js_mul (Fin 16000) (lit 0.45)"
        "Fin 24000" 2 "[0, - 3, - 2]" "Fin (3 / 2)" "- 3" 40000]
      interpolate_example s
    by simp
qed

text \<open>
  Halfway between the filtered samples \<open>-3\<close> and \<open>-2\<close> the interpolated value is
  \<open>-2.5\<close>, which is stored as \<open>-2\<close>; rounding half away from zero would give \<open>-3\<close>.
\<close>

theorem rounding_counterexample:
  "interpolate [0, - 3, - 2] (Fin (3 / 2)) 2 ! 1 = - 2
   \<and> (word_of_int (roundHalfAwayFromZero (- 3 + 1 / 2 * (- 2 - (- 3)))) :: int16) = - 3"
  using interpolate_example by (simp add: roundHalfAwayFromZero_def)

end
